theory Spec2Isabelle
  imports Main "HOL-Library.Sublist"
begin

section \<open>Strings of the Qt library used by ProcessLauncher.cpp\<close>

text \<open>
  \<^verbatim>\<open>QString\<close> is modelled as \<^typ>\<open>string\<close>. The double quote cannot be written
  inside a string literal of the logic, so it gets a name.
\<close>

definition dq :: char where
  "dq = CHR 0x22"

definition quoted :: "string \<Rightarrow> string" where
  \<comment> \<open>a C++ literal of the shape \<^verbatim>\<open>"\"...\""\<close>\<close>
  "quoted s = dq # s @ [dq]"

text \<open>
  \<^verbatim>\<open>QString::replace(QChar c, const QString &after)\<close>: every occurrence of the
  character is replaced, left to right.
\<close>

fun replace_char :: "char \<Rightarrow> string \<Rightarrow> string \<Rightarrow> string" where
  "replace_char c aft [] = []"
| "replace_char c aft (x # xs) =
     (if x = c then aft @ replace_char c aft xs else x # replace_char c aft xs)"

text \<open>
  \<^verbatim>\<open>QString::replace(const QString &before, const QString &after)\<close>: the string is
  scanned from the left; at each match of \<open>bef\<close> (Qt's \<^verbatim>\<open>before\<close>) the text
  \<open>aft\<close> (Qt's \<^verbatim>\<open>after\<close>) is put out and the scan goes on behind the match, so
  matches do not overlap and replaced text is not scanned again. \<open>replace_scan\<close> is that scan for a non-empty \<open>bef\<close>.
\<close>

fun replace_scan :: "string \<Rightarrow> string \<Rightarrow> string \<Rightarrow> string" where
  "replace_scan bef aft [] = []"
| "replace_scan bef aft (c # cs) =
     (if prefix bef (c # cs)
      then aft @ replace_scan bef aft (drop (length bef - 1) cs)
      else c # replace_scan bef aft cs)"

definition replace :: "string \<Rightarrow> string \<Rightarrow> string \<Rightarrow> string" where
  \<comment> \<open>Qt puts \<open>aft\<close> around every character when \<open>bef\<close> is empty\<close>
  "replace bef aft s =
     (if bef = [] then aft @ concat (map (\<lambda>c. c # aft) s)
      else replace_scan bef aft s)"

text \<open>
  \<^verbatim>\<open>QRegularExpression("\\s")\<close> without the Unicode-properties option: the six ASCII
  white space characters of PCRE (HT, LF, VT, FF, CR, space).
  \<^verbatim>\<open>QString::contains(regex)\<close> holds when some position matches.
\<close>

definition WHITESPACE_REGEX :: "char \<Rightarrow> bool" where
  "WHITESPACE_REGEX c =
     (c = CHR 0x09 \<or> c = CHR 0x0A \<or> c = CHR 0x0B \<or> c = CHR 0x0C \<or> c = CHR 0x0D \<or> c = CHR 0x20)"

fun contains_regex :: "(char \<Rightarrow> bool) \<Rightarrow> string \<Rightarrow> bool" where
  "contains_regex re [] = False"
| "contains_regex re (c # cs) = (re c \<or> contains_regex re cs)"

text \<open>
  \<^verbatim>\<open>QFileInfo(path).completeBaseName()\<close>: the file name is what follows the last
  \<^verbatim>\<open>/\<close>; the complete base name is the file name up to, and without, its last dot,
  and the whole file name when it has no dot.
\<close>

definition fileName :: "string \<Rightarrow> string" where
  "fileName path = rev (takeWhile (\<lambda>c. c \<noteq> CHR ''/'') (rev path))"

definition completeBaseName :: "string \<Rightarrow> string" where
  "completeBaseName path =
     (let name = fileName path
      in if CHR ''.'' \<in> set name
         then rev (tl (dropWhile (\<lambda>c. c \<noteq> CHR ''.'') (rev name)))
         else name)"

section \<open>ProcessLauncher::createLaunchCommand\<close>

datatype ParamType = PATH | BASENAME

text \<open>
  The body of the loop over \<^verbatim>\<open>params\<close>: quotes are tripled, then a parameter with
  white space is put between quotes.
\<close>

definition sanitize :: "string \<Rightarrow> string" where
  "sanitize param =
     (let param = replace_char dq [dq, dq, dq] param
      in if contains_regex WHITESPACE_REGEX param then dq # param @ [dq] else param)"

text \<open>
  \<^verbatim>\<open>QMap<ParamType, QString>\<close> as an association list in key order; the range-for
  loop rewrites every value in place; \<^verbatim>\<open>QMap::value\<close> gives the empty string for a
  key that is absent.
\<close>

fun for_each_param :: "(ParamType \<times> string) list \<Rightarrow> (ParamType \<times> string) list" where
  "for_each_param [] = []"
| "for_each_param ((k, param) # rest) = (k, sanitize param) # for_each_param rest"

definition value_of :: "(ParamType \<times> string) list \<Rightarrow> ParamType \<Rightarrow> string" where
  "value_of params k = (case map_of params k of None \<Rightarrow> [] | Some v \<Rightarrow> v)"

definition launch_params :: "string \<Rightarrow> (ParamType \<times> string) list" where
  "launch_params m_rom_path =
     for_each_param [(PATH, m_rom_path), (BASENAME, completeBaseName m_rom_path)]"

definition createLaunchCommand :: "string \<Rightarrow> string \<Rightarrow> string" where
  "createLaunchCommand m_launch_cmd m_rom_path =
     (let params = launch_params m_rom_path;
          launch_cmd = m_launch_cmd;
          launch_cmd = replace (quoted ''%ROM%'') (value_of params PATH) launch_cmd;
          launch_cmd = replace (quoted ''%ROM_RAW%'') (value_of params PATH) launch_cmd;
          launch_cmd = replace (quoted ''%BASENAME%'') (value_of params BASENAME) launch_cmd;
          launch_cmd = replace ''%ROM%'' (value_of params PATH) launch_cmd;
          launch_cmd = replace ''%ROM_RAW%'' (value_of params PATH) launch_cmd;
          launch_cmd = replace ''%BASENAME%'' (value_of params BASENAME) launch_cmd
      in launch_cmd)"

text \<open>
  An occurrence of a text inside a string, at any offset (what the claims call
  "contains").
\<close>

fun occurs :: "string \<Rightarrow> string \<Rightarrow> bool" where
  "occurs t [] = (t = [])"
| "occurs t (c # cs) = (prefix t (c # cs) \<or> occurs t cs)"

text \<open>
  A template made of the same placeholder form \<open>T\<close> between the pieces of text \<open>gs\<close>:
  \<open>interleave T [g0, g1, g2] = g0 @ T @ g1 @ T @ g2\<close>.
\<close>

fun interleave :: "string \<Rightarrow> string list \<Rightarrow> string" where
  "interleave T [] = []"
| "interleave T [g] = g"
| "interleave T (g # g' # gs) = g @ T @ interleave T (g' # gs)"

section \<open>QProcess as the launcher sees it\<close>

datatype ProcessError = FailedToStart | Crashed | Timedout | ReadError | WriteError | UnknownError

datatype ExitStatus = NormalExit | CrashExit

text \<open>The three signals of \<^verbatim>\<open>QProcess\<close> that \<^verbatim>\<open>runProcess\<close> connects.\<close>

datatype QProcess_signal = started | errorOccurred ProcessError | finished int ExitStatus

record QProcess =
  program :: string
  processId :: int

text \<open>
  What the operating system does with one command line between \<^verbatim>\<open>start\<close> and the
  return of \<^verbatim>\<open>waitForFinished\<close>: the program name Qt splits off the command, the
  process id, and the signals the \<^verbatim>\<open>QProcess\<close> emits until then, in order. It is
  an input of the model. \<^verbatim>\<open>waitForFinished()\<close> is called without an argument, so
  it returns when the process has finished or could not be started, and after Qt's
  default of 30000 ms at the latest: a process that is still running then has emitted
  \<^verbatim>\<open>started\<close> and nothing else.
\<close>

record os_run =
  os_program :: string
  os_pid :: int
  os_signals :: "QProcess_signal list"

section \<open>ProcessLauncher\<close>

text \<open>
  What an observer sees: the lines written with \<^verbatim>\<open>qDebug\<close>, \<^verbatim>\<open>qInfo\<close> and
  \<^verbatim>\<open>qWarning\<close>, each with the value it carries, and the signal
  \<^verbatim>\<open>processFinished\<close> of the launcher.
\<close>

datatype event =
    Debug string
  | Info_separator
  | Info_executing_command string
  | Info_process_started int
  | Warning_could_not_run string
  | Warning_has_crashed string
  | Warning_not_started_in_time string
  | Warning_unknown_error string
  | Info_finished_cleanly int
  | Info_crashed_on_exit int
  | processFinished

text \<open>
  The program is built with assertions, or without them (\<^verbatim>\<open>QT_NO_DEBUG\<close> defined).
  With assertions \<^verbatim>\<open>Q_ASSERT(cond)\<close> ends the program when \<open>cond\<close> is false and
  \<^verbatim>\<open>Q_UNREACHABLE()\<close> ends it always. Without them \<^verbatim>\<open>Q_ASSERT\<close> is no code at
  all, and reaching \<^verbatim>\<open>Q_UNREACHABLE()\<close> is undefined behaviour.
\<close>

datatype build = With_assertions | Without_assertions

definition Q_ASSERT_fails :: "build \<Rightarrow> bool \<Rightarrow> bool" where
  "Q_ASSERT_fails b cond = (case b of With_assertions \<Rightarrow> \<not> cond | Without_assertions \<Rightarrow> False)"

text \<open>
  The places where a call leaves its normal course instead of returning:
  \<^verbatim>\<open>Q_ASSERT(!process)\<close> in \<^verbatim>\<open>runProcess\<close>, \<^verbatim>\<open>Q_ASSERT(process)\<close> in the three
  handlers, \<^verbatim>\<open>Q_UNREACHABLE()\<close> in \<^verbatim>\<open>onProcessFailed\<close>, \<^verbatim>\<open>Q_UNREACHABLE()\<close> in
  \<^verbatim>\<open>onProcessFinished\<close>, and a member call through the null \<^verbatim>\<open>process\<close> pointer
  (\<^verbatim>\<open>process->processId()\<close>, \<^verbatim>\<open>process->program()\<close>), which only a build without
  assertions can get to. What happens there is either the end of the program or
  undefined; in the second case the model says nothing about what follows.
\<close>

datatype abort =
    Assert_no_process
  | Assert_process
  | Unreachable_io_error
  | Unreachable_exit_status
  | Null_process_pointer

datatype fate = Program_aborted | Undefined_behaviour

fun fate_at :: "build \<Rightarrow> abort \<Rightarrow> fate" where
  "fate_at b Assert_no_process = Program_aborted"
| "fate_at b Assert_process = Program_aborted"
| "fate_at With_assertions Unreachable_io_error = Program_aborted"
| "fate_at Without_assertions Unreachable_io_error = Undefined_behaviour"
| "fate_at With_assertions Unreachable_exit_status = Program_aborted"
| "fate_at Without_assertions Unreachable_exit_status = Undefined_behaviour"
| "fate_at b Null_process_pointer = Undefined_behaviour"

text \<open>
  The member \<^verbatim>\<open>process\<close> is a guarded pointer: it stays set after
  \<^verbatim>\<open>deleteLater\<close> until the event loop deletes the object, and is null from then on.
\<close>

record launcher =
  process :: "QProcess option"
  delete_later :: bool
  observed :: "event list"

type_synonym result = "(abort \<times> launcher) + launcher"

definition ProcessLauncher :: launcher where
  \<comment> \<open>the constructor\<close>
  "ProcessLauncher = \<lparr>process = None, delete_later = False, observed = []\<rparr>"

definition put :: "event \<Rightarrow> launcher \<Rightarrow> launcher" where
  "put e l = l\<lparr>observed := observed l @ [e]\<rparr>"

definition deferred_delete :: "launcher \<Rightarrow> launcher" where
  \<comment> \<open>the event loop handles the deletion that \<^verbatim>\<open>deleteLater\<close> asked for\<close>
  "deferred_delete l =
     (if delete_later l then l\<lparr>process := None, delete_later := False\<rparr> else l)"

definition onProcessStarted :: "build \<Rightarrow> launcher \<Rightarrow> result" where
  "onProcessStarted b l =
     (if Q_ASSERT_fails b (process l \<noteq> None) then Inl (Assert_process, l)
      else case process l of
             None \<Rightarrow> Inl (Null_process_pointer, l)
           | Some p \<Rightarrow> Inr (put (Info_process_started (processId p)) l))"

definition qWarning_program :: "(string \<Rightarrow> event) \<Rightarrow> launcher \<Rightarrow> result" where
  \<comment> \<open>a warning line that carries \<^verbatim>\<open>process->program()\<close>\<close>
  "qWarning_program line l =
     (case process l of
        None \<Rightarrow> Inl (Null_process_pointer, l)
      | Some p \<Rightarrow> Inr (put (line (program p)) l))"

definition onProcessFailed :: "build \<Rightarrow> launcher \<Rightarrow> ProcessError \<Rightarrow> result" where
  "onProcessFailed b l error =
     (if Q_ASSERT_fails b (process l \<noteq> None) then Inl (Assert_process, l)
      else case error of
             FailedToStart \<Rightarrow> qWarning_program Warning_could_not_run l
           | Crashed \<Rightarrow> qWarning_program Warning_has_crashed l
           | Timedout \<Rightarrow> qWarning_program Warning_not_started_in_time l
           | ReadError \<Rightarrow> Inl (Unreachable_io_error, l)
           | WriteError \<Rightarrow> Inl (Unreachable_io_error, l)
           | UnknownError \<Rightarrow> qWarning_program Warning_unknown_error l)"

text \<open>
  The case \<^verbatim>\<open>CrashExit\<close> has no \<^verbatim>\<open>break\<close>: after its line is written, control
  falls into \<^verbatim>\<open>default\<close>, which is \<^verbatim>\<open>Q_UNREACHABLE()\<close>.
\<close>

definition onProcessFinished :: "build \<Rightarrow> launcher \<Rightarrow> int \<Rightarrow> ExitStatus \<Rightarrow> result" where
  "onProcessFinished b l exitcode exitstatus =
     (if Q_ASSERT_fails b (process l \<noteq> None) then Inl (Assert_process, l)
      else case exitstatus of
             NormalExit \<Rightarrow> Inr (put (Info_finished_cleanly exitcode) l)
           | CrashExit \<Rightarrow>
               Inl (Unreachable_exit_status, put (Info_crashed_on_exit exitcode) l))"

definition slot :: "build \<Rightarrow> launcher \<Rightarrow> QProcess_signal \<Rightarrow> result" where
  \<comment> \<open>the three \<^verbatim>\<open>connect\<close> calls\<close>
  "slot b l sig =
     (case sig of
        started \<Rightarrow> onProcessStarted b l
      | errorOccurred error \<Rightarrow> onProcessFailed b l error
      | finished exitcode exitstatus \<Rightarrow> onProcessFinished b l exitcode exitstatus)"

text \<open>The signals are delivered one after the other while the caller waits.\<close>

fun deliver :: "build \<Rightarrow> launcher \<Rightarrow> QProcess_signal list \<Rightarrow> result" where
  "deliver b l [] = Inr l"
| "deliver b l (sig # sigs) =
     (case slot b l sig of Inl a \<Rightarrow> Inl a | Inr l' \<Rightarrow> deliver b l' sigs)"

text \<open>
  \<^verbatim>\<open>runProcess\<close>: without assertions nothing looks at the old pointer, the new
  \<^verbatim>\<open>QProcess\<close> takes its place and the run goes on.
\<close>

definition runProcess :: "build \<Rightarrow> (string \<Rightarrow> os_run) \<Rightarrow> launcher \<Rightarrow> string \<Rightarrow> result" where
  "runProcess b os l command =
     (if Q_ASSERT_fails b (process l = None) then Inl (Assert_no_process, l)
      else let r = os command;
               l = l\<lparr>process := Some \<lparr>program = os_program r, processId = os_pid r\<rparr>\<rparr>
           in case deliver b l (os_signals r) of
                Inl a \<Rightarrow> Inl a
              | Inr l \<Rightarrow> Inr (l\<lparr>delete_later := True\<rparr>))"

text \<open>
  \<^verbatim>\<open>launchGame\<close>: the two \<^verbatim>\<open>qDebug\<close> lines are those of the loop in
  \<^verbatim>\<open>createLaunchCommand\<close>, in key order.
\<close>

definition launchGame ::
  "build \<Rightarrow> (string \<Rightarrow> os_run) \<Rightarrow> launcher \<Rightarrow> string \<Rightarrow> string \<Rightarrow> result" where
  "launchGame b os l m_launch_cmd m_rom_path =
     (let l = put (Debug (value_of (launch_params m_rom_path) PATH)) l;
          l = put (Debug (value_of (launch_params m_rom_path) BASENAME)) l;
          launch_cmd = createLaunchCommand m_launch_cmd m_rom_path;
          l = put Info_separator l;
          l = put (Info_executing_command launch_cmd) l
      in case runProcess b os l launch_cmd of
           Inl a \<Rightarrow> Inl a
         | Inr l \<Rightarrow> Inr (put processFinished l))"

text \<open>
  Reading a result: the place where a run left its normal course, or what was observed
  when it returned.
\<close>

definition aborted_at :: "result \<Rightarrow> abort option" where
  "aborted_at r = (case r of Inl (a, l) \<Rightarrow> Some a | Inr l \<Rightarrow> None)"

definition returned_events :: "result \<Rightarrow> event list option" where
  "returned_events r = (case r of Inl a \<Rightarrow> None | Inr l \<Rightarrow> Some (observed l))"

section \<open>The specification's SanitizedValue\<close>

text \<open>
  Written after the words of the specification, to be compared with \<open>sanitize\<close>:
  every double quote becomes three, then the whole value is wrapped in one pair of
  double quotes if and only if the escaped string contains a white space character.
\<close>

definition spec_SanitizedValue :: "string \<Rightarrow> string" where
  "spec_SanitizedValue raw =
     (let escaped = concat (map (\<lambda>c. if c = dq then [dq, dq, dq] else [c]) raw)
      in if list_ex WHITESPACE_REGEX escaped then quoted escaped else escaped)"

section \<open>Facts about the string functions\<close>

lemmas build_defs = createLaunchCommand_def launch_params_def value_of_def sanitize_def
  completeBaseName_def fileName_def replace_def quoted_def dq_def WHITESPACE_REGEX_def

lemmas handler_defs = slot_def onProcessStarted_def onProcessFailed_def onProcessFinished_def
  qWarning_program_def put_def

lemma replace_char_concat:
  "replace_char c aft s = concat (map (\<lambda>x. if x = c then aft else [x]) s)"
  by (induction s) simp_all

lemma replace_char_absent: "c \<notin> set s \<Longrightarrow> replace_char c aft s = s"
  by (induction s) auto

lemma contains_regex_list_ex: "contains_regex re s = list_ex re s"
  by (induction s) simp_all

lemma value_of_PATH: "value_of (launch_params p) PATH = sanitize p"
  by (simp add: launch_params_def value_of_def)

lemma value_of_BASENAME: "value_of (launch_params p) BASENAME = sanitize (completeBaseName p)"
  by (simp add: launch_params_def value_of_def)

lemma createLaunchCommand_steps:
  "createLaunchCommand t p =
     replace_scan ''%BASENAME%'' (sanitize (completeBaseName p))
       (replace_scan ''%ROM_RAW%'' (sanitize p)
         (replace_scan ''%ROM%'' (sanitize p)
           (replace_scan (quoted ''%BASENAME%'') (sanitize (completeBaseName p))
             (replace_scan (quoted ''%ROM_RAW%'') (sanitize p)
               (replace_scan (quoted ''%ROM%'') (sanitize p) t)))))"
  by (simp add: createLaunchCommand_def Let_def value_of_PATH value_of_BASENAME replace_def
      quoted_def)

subsection \<open>File names\<close>

lemma fileName_append:
  assumes "CHR ''/'' \<notin> set name" and "pre = [] \<or> last pre = CHR ''/''"
  shows "fileName (pre @ name) = name"
proof (cases "pre = []")
  case True
  have "takeWhile (\<lambda>c. c \<noteq> CHR ''/'') (rev name) = rev name"
    using assms(1) by (intro takeWhile_eq_all_conv [THEN iffD2]) auto
  then show ?thesis
    unfolding fileName_def True by (simp only: append_Nil rev_rev_ident)
next
  case False
  with assms(2) have "hd (rev pre) = CHR ''/''" "rev pre \<noteq> []"
    by (simp_all add: hd_rev)
  then have "takeWhile (\<lambda>c. c \<noteq> CHR ''/'') (rev pre) = []"
    by (cases "rev pre") simp_all
  moreover have "takeWhile (\<lambda>c. c \<noteq> CHR ''/'') (rev name @ rev pre)
      = rev name @ takeWhile (\<lambda>c. c \<noteq> CHR ''/'') (rev pre)"
    using assms(1) by (intro takeWhile_append2) auto
  ultimately show ?thesis
    by (simp add: fileName_def)
qed

lemma completeBaseName_ext:
  assumes "CHR ''/'' \<notin> set stem" "CHR ''/'' \<notin> set ext" "CHR ''.'' \<notin> set ext"
    and "pre = [] \<or> last pre = CHR ''/''"
  shows "completeBaseName (pre @ stem @ ''.'' @ ext) = stem"
proof -
  have "fileName (pre @ stem @ ''.'' @ ext) = stem @ ''.'' @ ext"
    using assms by (intro fileName_append) auto
  moreover have "dropWhile (\<lambda>c. c \<noteq> CHR ''.'') (rev ext @ CHR ''.'' # rev stem)
      = CHR ''.'' # rev stem"
    using assms(3) by (subst dropWhile_append2) auto
  ultimately show ?thesis by (simp add: completeBaseName_def)
qed

lemma completeBaseName_no_ext:
  assumes "CHR ''/'' \<notin> set name" "CHR ''.'' \<notin> set name" "pre = [] \<or> last pre = CHR ''/''"
  shows "completeBaseName (pre @ name) = name"
  using assms by (simp add: completeBaseName_def fileName_append)

subsection \<open>Where a run can stop\<close>

lemma slot_abort:
  "slot b l sig = Inl (a, l') \<Longrightarrow> process l \<noteq> None \<Longrightarrow>
     a = Unreachable_io_error \<and> (sig = errorOccurred ReadError \<or> sig = errorOccurred WriteError)
   \<or> a = Unreachable_exit_status \<and> (\<exists>c. sig = finished c CrashExit)"
  by (auto simp: handler_defs Q_ASSERT_fails_def
      split: QProcess_signal.splits option.splits ProcessError.splits ExitStatus.splits
        build.splits if_splits)

lemma slot_process: "slot b l sig = Inr l' \<Longrightarrow> process l' = process l"
  by (auto simp: handler_defs
      split: QProcess_signal.splits option.splits ProcessError.splits ExitStatus.splits
        if_splits)

lemma deliver_abort:
  "deliver b l sigs = Inl (a, l') \<Longrightarrow> process l \<noteq> None \<Longrightarrow>
     a = Unreachable_io_error
       \<and> (errorOccurred ReadError \<in> set sigs \<or> errorOccurred WriteError \<in> set sigs)
   \<or> a = Unreachable_exit_status \<and> (\<exists>c. finished c CrashExit \<in> set sigs)"
proof (induction sigs arbitrary: l)
  case Nil
  then show ?case by simp
next
  case (Cons sig sigs)
  show ?case
  proof (cases "slot b l sig")
    case (Inl x)
    with Cons.prems have "slot b l sig = Inl (a, l')" by simp
    from slot_abort [OF this Cons.prems(2)] show ?thesis by auto
  next
    case (Inr l1)
    with Cons.prems have "deliver b l1 sigs = Inl (a, l')" by simp
    moreover from Inr Cons.prems(2) have "process l1 \<noteq> None" by (simp add: slot_process)
    ultimately show ?thesis using Cons.IH by fastforce
  qed
qed

text \<open>
  A run whose process exits normally before \<^verbatim>\<open>waitForFinished()\<close> returns: one
  started line, one finished line, then \<^verbatim>\<open>processFinished\<close>.
\<close>

lemma run_finished_within_wait:
  assumes "process l = None"
    and "os_signals (os (createLaunchCommand t p)) = [started, finished exitcode NormalExit]"
  shows "returned_events (launchGame b os l t p) = Some (observed l @
           [Debug (sanitize p), Debug (sanitize (completeBaseName p)), Info_separator,
            Info_executing_command (createLaunchCommand t p),
            Info_process_started (os_pid (os (createLaunchCommand t p))),
            Info_finished_cleanly exitcode,
            processFinished])"
  using assms
  by (simp add: launchGame_def runProcess_def handler_defs Let_def value_of_PATH
      value_of_BASENAME returned_events_def Q_ASSERT_fails_def split: build.splits)

subsection \<open>Characters of the sanitized values\<close>

lemma set_sanitize: "c \<noteq> dq \<Longrightarrow> c \<notin> set s \<Longrightarrow> c \<notin> set (sanitize s)"
  by (auto simp: sanitize_def replace_char_concat Let_def split: if_splits)

lemma set_completeBaseName: "c \<notin> set p \<Longrightarrow> c \<notin> set (completeBaseName p)"
proof -
  have 1: "set (fileName p) \<subseteq> set p"
    unfolding fileName_def using set_takeWhileD by fastforce
  have "set (tl (dropWhile (\<lambda>c. c \<noteq> CHR ''.'') (rev (fileName p)))) \<subseteq> set (fileName p)"
    by (metis (no_types, lifting) list.set_sel(2) set_dropWhileD set_rev subsetI tl_Nil)
  with 1 have "set (completeBaseName p) \<subseteq> set p"
    by (auto simp: completeBaseName_def Let_def)
  then show "c \<notin> set p \<Longrightarrow> c \<notin> set (completeBaseName p)" by auto
qed

subsection \<open>Occurrences\<close>

lemma occurs_sublist: "occurs t s = sublist t s"
  by (induction s) (simp_all add: sublist_Cons_right)

lemma occurs_skip: "occurs (x # xs) (v @ r) \<Longrightarrow> x \<notin> set v \<Longrightarrow> occurs (x # xs) r"
  by (induction v) auto

lemma occurs_drop: "occurs t (drop n s) \<Longrightarrow> occurs t s"
  unfolding occurs_sublist
  by (meson sublist_drop sublist_order.order_trans)

lemma occurs_trans: "occurs a b \<Longrightarrow> occurs b c \<Longrightarrow> occurs a c"
  unfolding occurs_sublist by (rule sublist_order.order_trans)

lemma occurs_quoted: "occurs (quoted t) s \<Longrightarrow> occurs t s"
proof -
  have "occurs t (quoted t)"
    unfolding occurs_sublist quoted_def by (metis append_Cons append_Nil sublist_appendI)
  then show "occurs (quoted t) s \<Longrightarrow> occurs t s" by (rule occurs_trans)
qed

lemma prefix_snoc_append:
  assumes "prefix (u @ [c]) (v @ r)" and "c \<notin> set v"
  shows "prefix v u"
proof -
  from assms(1) consider "prefix (u @ [c]) v" | us where "u @ [c] = v @ us"
    by (auto simp: prefix_append)
  then show ?thesis
  proof cases
    case 1
    then have "c \<in> set v" using set_mono_prefix by fastforce
    with assms(2) show ?thesis by simp
  next
    case 2
    then have "prefix v (u @ [c])" by (simp add: prefixI)
    moreover have "v \<noteq> u @ [c]" using assms(2) by auto
    ultimately show ?thesis by simp
  qed
qed

subsection \<open>One replacement step and the placeholders it leaves\<close>

text \<open>
  If the output of a step begins with \<open>u\<close> and the delimiter \<open>c\<close>, where the inserted
  text has no \<open>c\<close> and is no part of \<open>u\<close>, then the input began that way too.
\<close>

lemma prefix_replace_scan:
  assumes "c \<notin> set v" and "\<not> occurs v u"
    and "prefix (u @ [c]) (replace_scan bef v s)"
  shows "prefix (u @ [c]) s"
  using assms(2,3)
proof (induction s arbitrary: u)
  case Nil
  then show ?case by simp
next
  case (Cons x s)
  show ?case
  proof (cases "prefix bef (x # s)")
    case True
    with Cons.prems(2)
    have "prefix (u @ [c]) (v @ replace_scan bef v (drop (length bef - 1) s))"
      by simp
    from prefix_snoc_append [OF this assms(1)] have "sublist v u" by auto
    with Cons.prems(1) show ?thesis by (simp add: occurs_sublist)
  next
    case False
    with Cons.prems(2) have p: "prefix (u @ [c]) (x # replace_scan bef v s)" by simp
    show ?thesis
    proof (cases u)
      case Nil
      with p show ?thesis by simp
    next
      case (Cons d u')
      with p have "d = x" and p': "prefix (u' @ [c]) (replace_scan bef v s)" by simp_all
      have "\<not> occurs v u'"
        using Cons.prems(1) Cons by (auto simp: occurs_sublist sublist_Cons_right)
      from Cons.IH [OF this p'] \<open>d = x\<close> Cons show ?thesis by simp
    qed
  qed
qed

text \<open>
  A step removes its own placeholder, and brings back no placeholder that was absent,
  as long as the inserted text has no delimiter and is no part of the placeholder's name.
\<close>

lemma no_token_after_replace_scan:
  assumes "c \<notin> set v" and "\<not> occurs v u"
    and "bef = c # u @ [c] \<or> \<not> occurs (c # u @ [c]) s"
  shows "\<not> occurs (c # u @ [c]) (replace_scan bef v s)"
  using assms
proof (induction bef v s rule: replace_scan.induct)
  case (1 bef aft)
  then show ?case by simp
next
  case (2 bef aft x s)
  note c = "2.prems"(1) and nu = "2.prems"(2)
  show ?case
  proof (cases "prefix bef (x # s)")
    case True
    have "bef = c # u @ [c] \<or> \<not> occurs (c # u @ [c]) (drop (length bef - 1) s)"
      using "2.prems"(3) occurs_drop [of "c # u @ [c]" "length bef - 1" s] by auto
    from "2.IH"(1) [OF True c nu this]
    have "\<not> occurs (c # u @ [c]) (replace_scan bef aft (drop (length bef - 1) s))" .
    with occurs_skip [OF _ c] True show ?thesis by auto
  next
    case False
    have "bef = c # u @ [c] \<or> \<not> occurs (c # u @ [c]) s"
      using "2.prems"(3) by auto
    from "2.IH"(2) [OF False c nu this]
    have ih: "\<not> occurs (c # u @ [c]) (replace_scan bef aft s)" .
    have "\<not> prefix (c # u @ [c]) (x # replace_scan bef aft s)"
    proof
      assume "prefix (c # u @ [c]) (x # replace_scan bef aft s)"
      then have "x = c" and "prefix (u @ [c]) (replace_scan bef aft s)" by auto
      from prefix_replace_scan [OF c nu this(2)] \<open>x = c\<close>
      have "prefix (c # u @ [c]) (x # s)" by simp
      with False "2.prems"(3) show False by auto
    qed
    with ih False show ?thesis by simp
  qed
qed

lemma no_bare_placeholder:
  assumes "CHR ''%'' \<notin> set vp" "CHR ''%'' \<notin> set vb"
    and "\<not> occurs vp ''ROM_RAW''" "\<not> occurs vb ''ROM_RAW''" "\<not> occurs vb ''BASENAME''"
  defines "out s \<equiv> replace_scan ''%BASENAME%'' vb
                     (replace_scan ''%ROM_RAW%'' vp (replace_scan ''%ROM%'' vp s))"
  shows "\<not> occurs ''%ROM%'' (out s)" "\<not> occurs ''%ROM_RAW%'' (out s)"
    "\<not> occurs ''%BASENAME%'' (out s)"
proof -
  have rom: "occurs ''ROM'' ''ROM_RAW''" by simp
  have "\<not> occurs vp ''ROM''" "\<not> occurs vb ''ROM''"
    using assms(3,4) occurs_trans [OF _ rom] by blast+
  note nu = this assms(3-5)
  have "\<not> occurs (CHR ''%'' # ''ROM'' @ ''%'') (replace_scan ''%ROM%'' vp s)"
    by (rule no_token_after_replace_scan) (use assms nu in simp_all)
  then have "\<not> occurs (CHR ''%'' # ''ROM'' @ ''%'')
      (replace_scan ''%ROM_RAW%'' vp (replace_scan ''%ROM%'' vp s))"
    by (intro no_token_after_replace_scan) (use assms nu in simp_all)
  then have "\<not> occurs (CHR ''%'' # ''ROM'' @ ''%'') (out s)"
    unfolding out_def by (intro no_token_after_replace_scan) (use assms nu in simp_all)
  then show "\<not> occurs ''%ROM%'' (out s)" by simp
  have "\<not> occurs (CHR ''%'' # ''ROM_RAW'' @ ''%'')
      (replace_scan ''%ROM_RAW%'' vp (replace_scan ''%ROM%'' vp s))"
    by (rule no_token_after_replace_scan) (use assms nu in simp_all)
  then have "\<not> occurs (CHR ''%'' # ''ROM_RAW'' @ ''%'') (out s)"
    unfolding out_def by (intro no_token_after_replace_scan) (use assms nu in simp_all)
  then show "\<not> occurs ''%ROM_RAW%'' (out s)" by simp
  have "\<not> occurs (CHR ''%'' # ''BASENAME'' @ ''%'') (out s)"
    unfolding out_def by (rule no_token_after_replace_scan) (use assms nu in simp_all)
  then show "\<not> occurs ''%BASENAME%'' (out s)" by simp
qed

subsection \<open>A step on a template of equal placeholders\<close>

lemma replace_scan_skip:
  "bef \<noteq> [] \<Longrightarrow> hd bef \<notin> set g \<Longrightarrow>
     replace_scan bef aft (g @ s) = g @ replace_scan bef aft s"
  by (induction g) (auto simp: neq_Nil_conv)

lemma replace_scan_hit:
  "bef \<noteq> [] \<Longrightarrow> replace_scan bef aft (bef @ s) = aft @ replace_scan bef aft s"
  by (cases bef) simp_all

lemma replace_scan_absent:
  "c \<in> set bef \<Longrightarrow> c \<notin> set s \<Longrightarrow> replace_scan bef aft s = s"
proof (induction s)
  case Nil
  then show ?case by simp
next
  case (Cons x s)
  have "\<not> prefix bef (x # s)"
    using Cons.prems set_mono_prefix by fastforce
  with Cons show ?case by simp
qed

lemma set_interleave:
  "x \<in> set (interleave T gs) \<Longrightarrow> x \<in> set T \<or> (\<exists>g\<in>set gs. x \<in> set g)"
  by (induction T gs rule: interleave.induct) auto

lemma absent_interleave:
  "c \<notin> set T \<Longrightarrow> \<forall>g\<in>set gs. c \<notin> set g \<Longrightarrow> c \<notin> set (interleave T gs)"
  using set_interleave by fastforce

text \<open>The step of the placeholder itself replaces every occurrence.\<close>

lemma replace_scan_interleave:
  "bef \<noteq> [] \<Longrightarrow> \<forall>g\<in>set gs. hd bef \<notin> set g \<Longrightarrow>
     replace_scan bef aft (interleave bef gs) = interleave aft gs"
proof (induction gs rule: induct_list012)
  case 1
  then show ?case by simp
next
  case (2 g)
  then show ?case using replace_scan_skip [of bef g aft "[]"] by simp
next
  case (3 g g' gs)
  then show ?case by (simp add: replace_scan_skip replace_scan_hit)
qed

text \<open>The step of another placeholder leaves the template as it is.\<close>

lemma replace_scan_pass:
  assumes ne: "bef \<noteq> []"
    and gaps: "\<forall>g\<in>set gs. hd bef \<notin> set g \<and> Q g"
    and nopre: "\<And>g gs'. Q g \<Longrightarrow> \<not> prefix (tl bef) (interleave T (g # gs'))"
    and step: "\<And>rest. \<not> prefix (tl bef) rest \<Longrightarrow>
                 replace_scan bef aft (T @ rest) = T @ replace_scan bef aft rest"
  shows "replace_scan bef aft (interleave T gs) = interleave T gs"
  using gaps
proof (induction gs rule: induct_list012)
  case 1
  then show ?case by simp
next
  case (2 g)
  then show ?case using replace_scan_skip [OF ne, of g aft "[]"] by simp
next
  case (3 g g' gs)
  then have "\<not> prefix (tl bef) (interleave T (g' # gs))"
    by (intro nopre) simp
  from step [OF this] 3 ne show ?case
    by (simp add: replace_scan_skip)
qed

lemma prefix_same_stop:
  "prefix (w @ c # u) (g @ c # v) \<Longrightarrow> c \<notin> set w \<Longrightarrow> c \<notin> set g \<Longrightarrow> w = g"
proof (induction w arbitrary: g)
  case Nil
  then show ?case by (cases g) auto
next
  case (Cons y w)
  then show ?case by (cases g) auto
qed

lemma no_prefix_bare:
  assumes "c \<notin> set g" "c \<notin> set w" "g \<noteq> w"
  shows "\<not> prefix (w @ [c]) (interleave (c # t) (g # gs))"
proof (cases gs)
  case Nil
  show ?thesis
  proof
    assume "prefix (w @ [c]) (interleave (c # t) (g # gs))"
    then have "c \<in> set g" using Nil set_mono_prefix by fastforce
    with assms(1) show False by simp
  qed
next
  case (Cons g' gs')
  show ?thesis
  proof
    assume "prefix (w @ [c]) (interleave (c # t) (g # gs))"
    then have "prefix (w @ c # []) (g @ c # (t @ interleave (c # t) (g' # gs')))"
      using Cons by simp
    from prefix_same_stop [OF this assms(2,1)] assms(3) show False by simp
  qed
qed

lemma no_prefix_quoted:
  assumes "c \<notin> set g" "T \<noteq> []" "hd T \<noteq> c"
  shows "\<not> prefix (c # u) (interleave T (g # gs))"
  using assms by (cases gs; cases g; cases T) auto

lemma pass_quoted:
  assumes gaps: "\<forall>g\<in>set gs. CHR ''%'' \<notin> set g \<and> dq \<notin> set g"
    and step: "\<And>rest. \<not> prefix (X @ [dq]) rest \<Longrightarrow>
        replace_scan (quoted X) aft (quoted Y @ rest)
          = quoted Y @ replace_scan (quoted X) aft rest"
    and X: "X \<noteq> []" "hd X = CHR ''%''"
  shows "replace_scan (quoted X) aft (interleave (quoted Y) gs) = interleave (quoted Y) gs"
proof (rule replace_scan_pass [where Q = "\<lambda>g. CHR ''%'' \<notin> set g"])
  show "quoted X \<noteq> []" by (simp add: quoted_def)
  show "\<forall>g\<in>set gs. hd (quoted X) \<notin> set g \<and> CHR ''%'' \<notin> set g"
    using gaps by (simp add: quoted_def)
  show "\<not> prefix (tl (quoted X)) (interleave (quoted Y) (g # gs'))"
    if "CHR ''%'' \<notin> set g" for g gs'
  proof -
    obtain u where "tl (quoted X) = CHR ''%'' # u"
      using X by (cases X) (auto simp: quoted_def)
    moreover have "\<not> prefix (CHR ''%'' # u) (interleave (quoted Y) (g # gs'))"
      by (rule no_prefix_quoted) (use that in \<open>simp_all add: quoted_def dq_def\<close>)
    ultimately show ?thesis by simp
  qed
  show "replace_scan (quoted X) aft (quoted Y @ rest)
          = quoted Y @ replace_scan (quoted X) aft rest"
    if "\<not> prefix (tl (quoted X)) rest" for rest
    using that by (intro step) (simp add: quoted_def)
qed

lemma pass_bare:
  assumes gaps: "\<forall>g\<in>set gs. CHR ''%'' \<notin> set g \<and> g \<noteq> w"
    and step: "\<And>rest. \<not> prefix (w @ ''%'') rest \<Longrightarrow>
        replace_scan (CHR ''%'' # w @ ''%'') aft ((CHR ''%'' # t) @ rest)
          = (CHR ''%'' # t) @ replace_scan (CHR ''%'' # w @ ''%'') aft rest"
    and w: "CHR ''%'' \<notin> set w"
  shows "replace_scan (CHR ''%'' # w @ ''%'') aft (interleave (CHR ''%'' # t) gs)
           = interleave (CHR ''%'' # t) gs"
proof (rule replace_scan_pass [where Q = "\<lambda>g. CHR ''%'' \<notin> set g \<and> g \<noteq> w"])
  show "CHR ''%'' # w @ ''%'' \<noteq> []" by simp
  show "\<forall>g\<in>set gs. hd (CHR ''%'' # w @ ''%'') \<notin> set g \<and> CHR ''%'' \<notin> set g \<and> g \<noteq> w"
    using gaps by simp
  show "\<not> prefix (tl (CHR ''%'' # w @ ''%'')) (interleave (CHR ''%'' # t) (g # gs'))"
    if "CHR ''%'' \<notin> set g \<and> g \<noteq> w" for g gs'
    using no_prefix_bare [of "CHR ''%''" g w t gs'] that w by simp
  show "replace_scan (CHR ''%'' # w @ ''%'') aft ((CHR ''%'' # t) @ rest)
          = (CHR ''%'' # t) @ replace_scan (CHR ''%'' # w @ ''%'') aft rest"
    if "\<not> prefix (tl (CHR ''%'' # w @ ''%'')) rest" for rest
    using that by (intro step) simp
qed

lemma pass_qROM_qRAW:
  "\<forall>g\<in>set gs. CHR ''%'' \<notin> set g \<and> dq \<notin> set g \<Longrightarrow>
   replace_scan (quoted ''%ROM%'') aft (interleave (quoted ''%ROM_RAW%'') gs)
     = interleave (quoted ''%ROM_RAW%'') gs"
  by (rule pass_quoted) (simp_all add: quoted_def dq_def)

lemma pass_qROM_qBASE:
  "\<forall>g\<in>set gs. CHR ''%'' \<notin> set g \<and> dq \<notin> set g \<Longrightarrow>
   replace_scan (quoted ''%ROM%'') aft (interleave (quoted ''%BASENAME%'') gs)
     = interleave (quoted ''%BASENAME%'') gs"
  by (rule pass_quoted) (simp_all add: quoted_def dq_def)

lemma pass_qRAW_qBASE:
  "\<forall>g\<in>set gs. CHR ''%'' \<notin> set g \<and> dq \<notin> set g \<Longrightarrow>
   replace_scan (quoted ''%ROM_RAW%'') aft (interleave (quoted ''%BASENAME%'') gs)
     = interleave (quoted ''%BASENAME%'') gs"
  by (rule pass_quoted) (simp_all add: quoted_def dq_def)

lemma pass_ROM_RAW:
  "\<forall>g\<in>set gs. CHR ''%'' \<notin> set g \<and> g \<noteq> ''ROM'' \<Longrightarrow>
   replace_scan ''%ROM%'' aft (interleave ''%ROM_RAW%'' gs) = interleave ''%ROM_RAW%'' gs"
  using pass_bare [of gs "''ROM''" aft "''ROM_RAW%''"] by simp

lemma pass_ROM_BASE:
  "\<forall>g\<in>set gs. CHR ''%'' \<notin> set g \<and> g \<noteq> ''ROM'' \<Longrightarrow>
   replace_scan ''%ROM%'' aft (interleave ''%BASENAME%'' gs) = interleave ''%BASENAME%'' gs"
  using pass_bare [of gs "''ROM''" aft "''BASENAME%''"] by simp

lemma pass_RAW_BASE:
  "\<forall>g\<in>set gs. CHR ''%'' \<notin> set g \<and> g \<noteq> ''ROM_RAW'' \<Longrightarrow>
   replace_scan ''%ROM_RAW%'' aft (interleave ''%BASENAME%'' gs) = interleave ''%BASENAME%'' gs"
  using pass_bare [of gs "''ROM_RAW''" aft "''BASENAME%''"] by simp

lemma after_hit:
  assumes "CHR ''%'' \<notin> set v" "\<forall>g\<in>set gs. CHR ''%'' \<notin> set g" "CHR ''%'' \<in> set bef"
  shows "replace_scan bef aft (interleave v gs) = interleave v gs"
  by (rule replace_scan_absent [OF assms(3)]) (rule absent_interleave [OF assms(1,2)])

lemma before_bare:
  assumes "dq \<notin> set T" "\<forall>g\<in>set gs. dq \<notin> set g"
  shows "replace_scan (quoted X) aft (interleave T gs) = interleave T gs"
  by (rule replace_scan_absent [of dq]) (simp add: quoted_def, rule absent_interleave [OF assms])

subsection \<open>The whole substitution on a template of equal placeholders\<close>

lemma pct_in_forms:
  "CHR ''%'' \<in> set (quoted ''%ROM%'')" "CHR ''%'' \<in> set (quoted ''%ROM_RAW%'')"
  "CHR ''%'' \<in> set (quoted ''%BASENAME%'')" "CHR ''%'' \<in> set ''%ROM%''"
  "CHR ''%'' \<in> set ''%ROM_RAW%''" "CHR ''%'' \<in> set ''%BASENAME%''"
  by (simp_all add: quoted_def)

lemma dq_not_in_forms:
  "dq \<notin> set ''%ROM%''" "dq \<notin> set ''%ROM_RAW%''" "dq \<notin> set ''%BASENAME%''"
  by (simp_all add: dq_def)

lemma hit_quoted:
  "\<forall>g\<in>set gs. dq \<notin> set g \<Longrightarrow>
     replace_scan (quoted X) aft (interleave (quoted X) gs) = interleave aft gs"
  by (rule replace_scan_interleave) (simp_all add: quoted_def)

lemma hit_bare:
  "\<forall>g\<in>set gs. CHR ''%'' \<notin> set g \<Longrightarrow>
     replace_scan (CHR ''%'' # X) aft (interleave (CHR ''%'' # X) gs) = interleave aft gs"
  by (rule replace_scan_interleave) simp_all

lemma build_quoted_ROM:
  assumes gaps: "\<forall>g\<in>set gs. CHR ''%'' \<notin> set g \<and> dq \<notin> set g"
    and vp: "CHR ''%'' \<notin> set (sanitize p)"
  shows "createLaunchCommand (interleave (quoted ''%ROM%'') gs) p = interleave (sanitize p) gs"
proof -
  have g1: "\<forall>g\<in>set gs. CHR ''%'' \<notin> set g" and g2: "\<forall>g\<in>set gs. dq \<notin> set g"
    using gaps by auto
  note a = after_hit [OF vp g1]
  show ?thesis
    unfolding createLaunchCommand_steps
    by (simp only: hit_quoted [OF g2] a [OF pct_in_forms(2)] a [OF pct_in_forms(3)]
        a [OF pct_in_forms(4)] a [OF pct_in_forms(5)] a [OF pct_in_forms(6)])
qed

lemma build_quoted_ROM_RAW:
  assumes gaps: "\<forall>g\<in>set gs. CHR ''%'' \<notin> set g \<and> dq \<notin> set g"
    and vp: "CHR ''%'' \<notin> set (sanitize p)"
  shows "createLaunchCommand (interleave (quoted ''%ROM_RAW%'') gs) p
           = interleave (sanitize p) gs"
proof -
  have g1: "\<forall>g\<in>set gs. CHR ''%'' \<notin> set g" and g2: "\<forall>g\<in>set gs. dq \<notin> set g"
    using gaps by auto
  note a = after_hit [OF vp g1]
  show ?thesis
    unfolding createLaunchCommand_steps
    by (simp only: pass_qROM_qRAW [OF gaps] hit_quoted [OF g2] a [OF pct_in_forms(3)]
        a [OF pct_in_forms(4)] a [OF pct_in_forms(5)] a [OF pct_in_forms(6)])
qed

lemma build_quoted_BASENAME:
  assumes gaps: "\<forall>g\<in>set gs. CHR ''%'' \<notin> set g \<and> dq \<notin> set g"
    and vb: "CHR ''%'' \<notin> set (sanitize (completeBaseName p))"
  shows "createLaunchCommand (interleave (quoted ''%BASENAME%'') gs) p
           = interleave (sanitize (completeBaseName p)) gs"
proof -
  have g1: "\<forall>g\<in>set gs. CHR ''%'' \<notin> set g" and g2: "\<forall>g\<in>set gs. dq \<notin> set g"
    using gaps by auto
  note a = after_hit [OF vb g1]
  show ?thesis
    unfolding createLaunchCommand_steps
    by (simp only: pass_qROM_qBASE [OF gaps] pass_qRAW_qBASE [OF gaps] hit_quoted [OF g2]
        a [OF pct_in_forms(4)] a [OF pct_in_forms(5)] a [OF pct_in_forms(6)])
qed

lemma build_bare_ROM:
  assumes gaps: "\<forall>g\<in>set gs. CHR ''%'' \<notin> set g \<and> dq \<notin> set g"
    and vp: "CHR ''%'' \<notin> set (sanitize p)"
  shows "createLaunchCommand (interleave ''%ROM%'' gs) p = interleave (sanitize p) gs"
proof -
  have g1: "\<forall>g\<in>set gs. CHR ''%'' \<notin> set g" and g2: "\<forall>g\<in>set gs. dq \<notin> set g"
    using gaps by auto
  note a = after_hit [OF vp g1]
  show ?thesis
    unfolding createLaunchCommand_steps
    by (simp only: before_bare [OF dq_not_in_forms(1) g2] hit_bare [OF g1]
        a [OF pct_in_forms(5)] a [OF pct_in_forms(6)])
qed

lemma build_bare_ROM_RAW:
  assumes gaps: "\<forall>g\<in>set gs. CHR ''%'' \<notin> set g \<and> dq \<notin> set g \<and> g \<noteq> ''ROM''"
    and vp: "CHR ''%'' \<notin> set (sanitize p)"
  shows "createLaunchCommand (interleave ''%ROM_RAW%'' gs) p = interleave (sanitize p) gs"
proof -
  have g1: "\<forall>g\<in>set gs. CHR ''%'' \<notin> set g" and g2: "\<forall>g\<in>set gs. dq \<notin> set g"
    and g4: "\<forall>g\<in>set gs. CHR ''%'' \<notin> set g \<and> g \<noteq> ''ROM''"
    using gaps by auto
  note a = after_hit [OF vp g1]
  show ?thesis
    unfolding createLaunchCommand_steps
    by (simp only: before_bare [OF dq_not_in_forms(2) g2] pass_ROM_RAW [OF g4]
        hit_bare [OF g1] a [OF pct_in_forms(6)])
qed

lemma build_bare_BASENAME:
  assumes gaps: "\<forall>g\<in>set gs. CHR ''%'' \<notin> set g \<and> dq \<notin> set g \<and> g \<noteq> ''ROM''
                    \<and> g \<noteq> ''ROM_RAW''"
  shows "createLaunchCommand (interleave ''%BASENAME%'' gs) p
           = interleave (sanitize (completeBaseName p)) gs"
proof -
  have g1: "\<forall>g\<in>set gs. CHR ''%'' \<notin> set g" and g2: "\<forall>g\<in>set gs. dq \<notin> set g"
    and g4: "\<forall>g\<in>set gs. CHR ''%'' \<notin> set g \<and> g \<noteq> ''ROM''"
    and g5: "\<forall>g\<in>set gs. CHR ''%'' \<notin> set g \<and> g \<noteq> ''ROM_RAW''"
    using gaps by auto
  show ?thesis
    unfolding createLaunchCommand_steps
    by (simp only: before_bare [OF dq_not_in_forms(3) g2] pass_ROM_BASE [OF g4]
        pass_RAW_BASE [OF g5] hit_bare [OF g1])
qed

subsection \<open>A quoted placeholder between other text\<close>

lemma replace_scan_nonempty: "aft \<noteq> [] \<Longrightarrow> s \<noteq> [] \<Longrightarrow> replace_scan bef aft s \<noteq> []"
  by (cases s) simp_all

lemma last_replace_scan:
  assumes "aft \<noteq> []" "last aft \<noteq> c" "x = [] \<or> last x \<noteq> c"
  shows "replace_scan bef aft x = [] \<or> last (replace_scan bef aft x) \<noteq> c"
  using assms
proof (induction bef aft x rule: replace_scan.induct)
  case (1 bef aft)
  then show ?case by simp
next
  case (2 bef aft a as)
  show ?case
  proof (cases "prefix bef (a # as)")
    case True
    have "drop (length bef - 1) as = [] \<or> last (drop (length bef - 1) as) \<noteq> c"
      using "2.prems"(3)
      by (cases "drop (length bef - 1) as = []") (auto simp: last_drop split: if_splits)
    from "2.IH"(1) [OF True "2.prems"(1,2) this] True "2.prems"(1,2) show ?thesis
      by (auto simp: last_append)
  next
    case False
    have "as = [] \<or> last as \<noteq> c" using "2.prems"(3) by (cases as) auto
    from "2.IH"(2) [OF False "2.prems"(1,2) this] False "2.prems" show ?thesis
      using replace_scan_nonempty [OF "2.prems"(1), of as bef] by (cases "as = []") auto
  qed
qed

lemma hd_replace_scan:
  "aft \<noteq> [] \<Longrightarrow> hd aft \<noteq> c \<Longrightarrow> y = [] \<or> hd y \<noteq> c \<Longrightarrow>
     replace_scan bef aft y = [] \<or> hd (replace_scan bef aft y) \<noteq> c"
  by (cases y) auto

lemma snoc_eq_mid:
  "X @ [d] = z @ d # us \<Longrightarrow> d \<notin> set X \<Longrightarrow> z = X \<and> us = []"
proof (induction X arbitrary: z)
  case Nil
  then show ?case by (cases z) auto
next
  case (Cons a X)
  then show ?case by (cases z) auto
qed

lemma straddle_quoted:
  assumes "d \<notin> set X" "X \<noteq> []" "z \<noteq> []" "last z \<noteq> last X"
    and "prefix (d # X @ [d]) (z @ d # r)"
  shows "prefix (d # X @ [d]) z"
proof -
  from assms(5) have "prefix (d # X @ [d]) z
      \<or> (\<exists>us. d # X @ [d] = z @ us \<and> prefix us (d # r))"
    by (simp only: prefix_append)
  then consider "prefix (d # X @ [d]) z"
    | us where "d # X @ [d] = z @ us" "prefix us (d # r)" "us \<noteq> []"
    by (metis append_Nil2 prefix_order.order_refl)
  then show ?thesis
  proof cases
    case 1
    then show ?thesis .
  next
    case 2
    then obtain us' where us: "us = d # us'" by (cases us) auto
    from assms(3) obtain z' where z: "z = d # z'"
      using 2(1) by (cases z) auto
    from 2(1) us z have "X @ [d] = z' @ d # us'" by simp
    from snoc_eq_mid [OF this assms(1)] have "z' = X" by simp
    with z assms(2,4) show ?thesis by simp
  qed
qed

lemma replace_scan_split_quoted:
  assumes "bef = d # X @ [d]" "d \<notin> set X" "X \<noteq> []" "x = [] \<or> last x \<noteq> last X"
  shows "replace_scan bef aft (x @ d # r)
           = replace_scan bef aft x @ replace_scan bef aft (d # r)"
  using assms
proof (induction bef aft x rule: replace_scan.induct)
  case (1 bef aft)
  then show ?case by simp
next
  case (2 bef aft a as)
  have lastX: "last (a # as) \<noteq> last X" using "2.prems"(4) by simp
  show ?case
  proof (cases "prefix bef (a # as)")
    case True
    then have len: "length bef - 1 \<le> length as"
      using prefix_length_le by fastforce
    have E: "drop (length bef - 1) as = [] \<or> last (drop (length bef - 1) as) \<noteq> last X"
      using lastX
      by (cases "drop (length bef - 1) as = []") (auto simp: last_drop split: if_splits)
    have "prefix bef (a # as @ d # r)" using True by (metis append_Cons prefix_prefix)
    with True len "2.IH"(1) [OF True "2.prems"(1,2,3) E] show ?thesis by simp
  next
    case False
    have "\<not> prefix bef (a # as @ d # r)"
      using straddle_quoted [OF "2.prems"(2,3) _ lastX, where r = r] False "2.prems"(1) by auto
    moreover have "as = [] \<or> last as \<noteq> last X" using lastX by (cases as) auto
    ultimately show ?thesis using False "2.IH"(2) [OF False "2.prems"(1,2,3)] by simp
  qed
qed

lemma prefix_before_char:
  "prefix bef (z @ d # r) \<Longrightarrow> d \<notin> set bef \<Longrightarrow> prefix bef z"
  by (auto simp: prefix_append Cons_prefix_Cons prefix_Cons)

lemma replace_scan_split_char:
  assumes "bef \<noteq> []" "d \<notin> set bef"
  shows "replace_scan bef aft (x @ d # r)
           = replace_scan bef aft x @ d # replace_scan bef aft r"
  using assms
proof (induction bef aft x rule: replace_scan.induct)
  case (1 bef aft)
  then show ?case by (cases bef) auto
next
  case (2 bef aft a as)
  show ?case
  proof (cases "prefix bef (a # as)")
    case True
    then have len: "length bef - 1 \<le> length as"
      using prefix_length_le by fastforce
    have "prefix bef (a # as @ d # r)" using True by (metis append_Cons prefix_prefix)
    with True len "2.IH"(1) [OF True "2.prems"] show ?thesis by simp
  next
    case False
    have "\<not> prefix bef (a # as @ d # r)"
      using prefix_before_char [of bef "a # as" d r] False "2.prems"(2) by auto
    with False "2.IH"(2) [OF False "2.prems"] show ?thesis by simp
  qed
qed

lemma contains_regex_completeBaseName:
  "contains_regex re (completeBaseName p) \<Longrightarrow> contains_regex re p"
  unfolding contains_regex_list_ex list_ex_iff using set_completeBaseName by blast

lemma contains_regex_escaped:
  "contains_regex WHITESPACE_REGEX (replace_char dq [dq, dq, dq] s)
     = contains_regex WHITESPACE_REGEX s"
  by (induction s) (simp_all add: WHITESPACE_REGEX_def dq_def)

lemma sanitize_whitespace:
  "contains_regex WHITESPACE_REGEX s \<Longrightarrow> sanitize s = quoted (replace_char dq [dq, dq, dq] s)"
  by (simp add: sanitize_def contains_regex_escaped quoted_def)

lemma set_escaped: "c \<noteq> dq \<Longrightarrow> c \<notin> set s \<Longrightarrow> c \<notin> set (replace_char dq [dq, dq, dq] s)"
  by (induction s) auto

text \<open>A quoted step for another placeholder passes a quoted \<^verbatim>\<open>%BASENAME%\<close>.\<close>

lemma quoted_step_pass:
  assumes X: "X = ''%ROM%'' \<or> X = ''%ROM_RAW%''"
    and E: "x = [] \<or> last x \<noteq> CHR ''%''"
    and H: "y = [] \<or> hd y \<noteq> CHR ''%''"
  shows "replace_scan (quoted X) aft (x @ quoted ''%BASENAME%'' @ y)
           = replace_scan (quoted X) aft x @ quoted ''%BASENAME%'' @ replace_scan (quoted X) aft y"
proof -
  have nopre: "\<not> prefix (CHR ''%'' # u) y" for u
    using H by (cases y) auto
  have pass: "replace_scan (quoted X) aft (quoted ''%BASENAME%'' @ y)
      = quoted ''%BASENAME%'' @ replace_scan (quoted X) aft y"
    using X nopre by (auto simp: quoted_def dq_def)
  have "replace_scan (quoted X) aft (x @ dq # (''%BASENAME%'' @ dq # y))
      = replace_scan (quoted X) aft x @ replace_scan (quoted X) aft (dq # (''%BASENAME%'' @ dq # y))"
    by (rule replace_scan_split_quoted [where X = X]) (use X E in \<open>auto simp: quoted_def dq_def\<close>)
  with pass show ?thesis by (simp add: quoted_def)
qed

lemma quoted_step_hit:
  assumes E: "x = [] \<or> last x \<noteq> CHR ''%''"
  shows "replace_scan (quoted ''%BASENAME%'') aft (x @ quoted ''%BASENAME%'' @ y)
           = replace_scan (quoted ''%BASENAME%'') aft x @ aft
               @ replace_scan (quoted ''%BASENAME%'') aft y"
proof -
  have "replace_scan (quoted ''%BASENAME%'') aft (x @ dq # (''%BASENAME%'' @ dq # y))
      = replace_scan (quoted ''%BASENAME%'') aft x
          @ replace_scan (quoted ''%BASENAME%'') aft (dq # (''%BASENAME%'' @ dq # y))"
    by (rule replace_scan_split_quoted [where X = "''%BASENAME%''"])
      (use E in \<open>auto simp: quoted_def dq_def\<close>)
  moreover have "replace_scan (quoted ''%BASENAME%'') aft (quoted ''%BASENAME%'' @ y)
      = aft @ replace_scan (quoted ''%BASENAME%'') aft y"
    by (rule replace_scan_hit) (simp add: quoted_def)
  ultimately show ?thesis by (simp add: quoted_def)
qed

text \<open>A bare step passes a value that stands between quotes and has no \<^verbatim>\<open>%\<close>.\<close>

lemma bare_step_around:
  assumes "bef \<noteq> []" "dq \<notin> set bef" "CHR ''%'' \<in> set bef" "CHR ''%'' \<notin> set v"
  shows "replace_scan bef aft (x @ quoted v @ y)
           = replace_scan bef aft x @ quoted v @ replace_scan bef aft y"
proof -
  have "replace_scan bef aft (x @ dq # (v @ dq # y))
      = replace_scan bef aft x @ dq # replace_scan bef aft (v @ dq # y)"
    by (rule replace_scan_split_char [OF assms(1,2)])
  also have "replace_scan bef aft (v @ dq # y)
      = replace_scan bef aft v @ dq # replace_scan bef aft y"
    by (rule replace_scan_split_char [OF assms(1,2)])
  also have "replace_scan bef aft v = v"
    by (rule replace_scan_absent [OF assms(3,4)])
  finally show ?thesis by (simp add: quoted_def)
qed

lemma build_around_quoted_BASENAME:
  assumes E: "pre = [] \<or> last pre \<noteq> CHR ''%''"
    and H: "post = [] \<or> hd post \<noteq> CHR ''%''"
    and b: "CHR ''%'' \<notin> set (completeBaseName p)"
    and ws: "contains_regex WHITESPACE_REGEX (completeBaseName p)"
  shows "createLaunchCommand (pre @ quoted ''%BASENAME%'' @ post) p
           = createLaunchCommand pre p
               @ quoted (replace_char dq [dq, dq, dq] (completeBaseName p))
               @ createLaunchCommand post p"
proof -
  define vp where "vp = sanitize p"
  define v where "v = replace_char dq [dq, dq, dq] (completeBaseName p)"
  have vb: "sanitize (completeBaseName p) = quoted v"
    using ws by (simp add: sanitize_whitespace v_def)
  have v: "CHR ''%'' \<notin> set v"
    unfolding v_def using b by (intro set_escaped) (simp_all add: dq_def)
  have "contains_regex WHITESPACE_REGEX p"
    using ws by (rule contains_regex_completeBaseName)
  then have "vp = quoted (replace_char dq [dq, dq, dq] p)"
    unfolding vp_def by (rule sanitize_whitespace)
  then have vp: "vp \<noteq> []" "last vp \<noteq> CHR ''%''" "hd vp \<noteq> CHR ''%''"
    by (simp_all add: quoted_def dq_def)
  define x1 where "x1 = replace_scan (quoted ''%ROM%'') vp pre"
  define y1 where "y1 = replace_scan (quoted ''%ROM%'') vp post"
  define x2 where "x2 = replace_scan (quoted ''%ROM_RAW%'') vp x1"
  define y2 where "y2 = replace_scan (quoted ''%ROM_RAW%'') vp y1"
  have E1: "x1 = [] \<or> last x1 \<noteq> CHR ''%''"
    unfolding x1_def by (rule last_replace_scan [OF vp(1,2) E])
  have H1: "y1 = [] \<or> hd y1 \<noteq> CHR ''%''"
    unfolding y1_def by (rule hd_replace_scan [OF vp(1,3) H])
  have E2: "x2 = [] \<or> last x2 \<noteq> CHR ''%''"
    unfolding x2_def by (rule last_replace_scan [OF vp(1,2) E1])
  have s1: "replace_scan (quoted ''%ROM%'') vp (pre @ quoted ''%BASENAME%'' @ post)
      = x1 @ quoted ''%BASENAME%'' @ y1"
    unfolding x1_def y1_def by (rule quoted_step_pass [OF _ E H]) simp
  have s2: "replace_scan (quoted ''%ROM_RAW%'') vp (x1 @ quoted ''%BASENAME%'' @ y1)
      = x2 @ quoted ''%BASENAME%'' @ y2"
    unfolding x2_def y2_def by (rule quoted_step_pass [OF _ E1 H1]) simp
  have s3: "replace_scan (quoted ''%BASENAME%'') (quoted v) (x2 @ quoted ''%BASENAME%'' @ y2)
      = replace_scan (quoted ''%BASENAME%'') (quoted v) x2 @ quoted v
          @ replace_scan (quoted ''%BASENAME%'') (quoted v) y2"
    by (rule quoted_step_hit [OF E2])
  have bare: "replace_scan ''%ROM%'' aft (x @ quoted v @ y)
        = replace_scan ''%ROM%'' aft x @ quoted v @ replace_scan ''%ROM%'' aft y"
      "replace_scan ''%ROM_RAW%'' aft (x @ quoted v @ y)
        = replace_scan ''%ROM_RAW%'' aft x @ quoted v @ replace_scan ''%ROM_RAW%'' aft y"
      "replace_scan ''%BASENAME%'' aft (x @ quoted v @ y)
        = replace_scan ''%BASENAME%'' aft x @ quoted v @ replace_scan ''%BASENAME%'' aft y"
    for aft x y
    by (rule bare_step_around; use v in \<open>simp add: dq_def\<close>)+
  note steps = s1 [unfolded x1_def y1_def] s2 [unfolded x2_def y2_def x1_def y1_def]
    s3 [unfolded x2_def y2_def x1_def y1_def]
  show ?thesis
    unfolding createLaunchCommand_steps vb vp_def [symmetric] v_def [symmetric]
    by (simp only: steps bare)
qed

section \<open>The claims\<close>

text \<open>
  C1 (the code departs from the claim). The claim: whenever the process terminates, the
  finished handler reports the exit outcome and returns, also when the exit status is a
  crash. In the code the case \<^verbatim>\<open>CrashExit\<close> of \<^verbatim>\<open>onProcessFinished\<close> writes its
  line and then falls through into \<^verbatim>\<open>Q_UNREACHABLE()\<close>, in either build: the
  handler does not return in a defined way, and a launch whose process crashes leaves its
  course there, before \<^verbatim>\<open>processFinished\<close> is emitted.
\<close>

theorem onProcessFinished_crash_does_not_return:
  "onProcessFinished b (l\<lparr>process := Some p\<rparr>) exitcode CrashExit
     = Inl (Unreachable_exit_status,
            put (Info_crashed_on_exit exitcode) (l\<lparr>process := Some p\<rparr>))
   \<and> aborted_at (launchGame b
        (\<lambda>command. \<lparr>os_program = prog, os_pid = pid,
                     os_signals = [started, errorOccurred Crashed, finished exitcode CrashExit]\<rparr>)
        ProcessLauncher m_launch_cmd m_rom_path) = Some Unreachable_exit_status"
  by (simp add: launchGame_def runProcess_def ProcessLauncher_def handler_defs aborted_at_def
      Let_def Q_ASSERT_fails_def split: build.splits)

text \<open>
  C2, as stated: for the template \<^verbatim>\<open>run "%ROM%"\<close> and the path \<^verbatim>\<open>/roms/a.rom\<close> the
  command keeps the template's quotes around the value (\<^verbatim>\<open>run "a.rom"\<close>). It does
  not: the command is not that text and holds no quote at all.
\<close>

theorem quoted_ROM_example_keeps_no_quotes:
  "createLaunchCommand (''run '' @ quoted ''%ROM%'') ''/roms/a.rom'' \<noteq> ''run '' @ quoted ''a.rom''
   \<and> dq \<notin> set (createLaunchCommand (''run '' @ quoted ''%ROM%'') ''/roms/a.rom'')"
  by (simp add: build_defs)

text \<open>
  C2, amended: for that template and path the quoted form is replaced together with its
  two quote characters by the sanitized path, which has no white space and so is not
  wrapped: the command is \<^verbatim>\<open>run /roms/a.rom\<close>.
\<close>

theorem quoted_ROM_example:
  "createLaunchCommand (''run '' @ quoted ''%ROM%'') ''/roms/a.rom'' = ''run /roms/a.rom''"
  by (simp add: build_defs)

text \<open>
  C3: for every raw string the sanitized value of the code is the specification's
  SanitizedValue (quotes tripled first, then wrapped in one pair of quotes exactly when
  the escaped string has a white space character); a value without white space and
  without quotes is returned unchanged.
\<close>

theorem sanitize_is_SanitizedValue:
  "sanitize raw = spec_SanitizedValue raw
   \<and> (dq \<notin> set raw \<and> \<not> list_ex WHITESPACE_REGEX raw \<longrightarrow> sanitize raw = raw)"
  by (simp add: sanitize_def spec_SanitizedValue_def replace_char_concat [symmetric]
      contains_regex_list_ex quoted_def replace_char_absent Let_def)

theorem sanitize_is_SanitizedValue_witness:
  "dq \<notin> set ''game'' \<and> \<not> list_ex WHITESPACE_REGEX ''game'' \<and> sanitize ''game'' = ''game''
   \<and> sanitize ''Super Game!'' = quoted ''Super Game!''
   \<and> sanitize (''a'' @ [dq] @ ''b'') = ''a'' @ [dq, dq, dq] @ ''b''"
  using sanitize_is_SanitizedValue [of "''game''"]
    sanitize_is_SanitizedValue [of "''Super Game!''"]
    sanitize_is_SanitizedValue [of "''a'' @ [dq] @ ''b''"]
  by (simp add: spec_SanitizedValue_def dq_def WHITESPACE_REGEX_def quoted_def)

text \<open>
  C4, as stated: the six replacements run in the order quoted \<^verbatim>\<open>%ROM%\<close>,
  \<^verbatim>\<open>%ROM_RAW%\<close>, \<^verbatim>\<open>%BASENAME%\<close>, then the three bare forms, and therefore, for
  a template that contains the quoted \<^verbatim>\<open>%BASENAME%\<close> and a path whose base name has
  white space, the output stands in exactly one pair of quotes, never in two. The order
  is the code's, but the consequence fails for the template
  \<^verbatim>\<open>""%BASENAME%"" --fullscreen\<close> and the path \<^verbatim>\<open>/roms/Super Game!.rom\<close>: the
  quotes that the template has around the quoted form stay, and the value comes out in
  two pairs.
\<close>

theorem quoted_BASENAME_in_two_pairs:
  "occurs (quoted ''%BASENAME%'') (quoted (quoted ''%BASENAME%'') @ '' --fullscreen'')
   \<and> contains_regex WHITESPACE_REGEX (completeBaseName ''/roms/Super Game!.rom'')
   \<and> createLaunchCommand (quoted (quoted ''%BASENAME%'') @ '' --fullscreen'')
        ''/roms/Super Game!.rom''
       = quoted (quoted ''Super Game!'') @ '' --fullscreen''"
  by (simp add: build_defs)

text \<open>
  C4, amended: the six replacements run in this order: the quoted forms of
  \<^verbatim>\<open>%ROM%\<close>, \<^verbatim>\<open>%ROM_RAW%\<close>, \<^verbatim>\<open>%BASENAME%\<close> with the sanitized path, the
  sanitized path and the sanitized base name, then the three bare forms with the same
  values. The template \<^verbatim>\<open>"%BASENAME%" --fullscreen\<close> with the path
  \<^verbatim>\<open>/roms/Super Game!.rom\<close> gives \<^verbatim>\<open>"Super Game!" --fullscreen\<close>. For every
  template \<open>pre "%BASENAME%" post\<close> where \<open>pre\<close> does not end with \<^verbatim>\<open>%\<close> and \<open>post\<close>
  does not begin with \<^verbatim>\<open>%\<close>, and every path whose base name has white space and no
  \<^verbatim>\<open>%\<close>, the quoted form is replaced by the escaped base name in exactly one pair
  of quotes, between what the substitution makes of \<open>pre\<close> and of \<open>post\<close> on their own
  (so quotes that the template itself has next to the quoted form stay). With the bare
  form replaced first the example would come out in two pairs.
\<close>

theorem substitution_order:
  "createLaunchCommand t p =
     replace ''%BASENAME%'' (sanitize (completeBaseName p))
       (replace ''%ROM_RAW%'' (sanitize p)
         (replace ''%ROM%'' (sanitize p)
           (replace (quoted ''%BASENAME%'') (sanitize (completeBaseName p))
             (replace (quoted ''%ROM_RAW%'') (sanitize p)
               (replace (quoted ''%ROM%'') (sanitize p) t)))))
   \<and> createLaunchCommand (quoted ''%BASENAME%'' @ '' --fullscreen'') ''/roms/Super Game!.rom''
       = quoted ''Super Game!'' @ '' --fullscreen''
   \<and> ((pre = [] \<or> last pre \<noteq> CHR ''%'') \<and> (post = [] \<or> hd post \<noteq> CHR ''%'')
        \<and> CHR ''%'' \<notin> set (completeBaseName p)
        \<and> contains_regex WHITESPACE_REGEX (completeBaseName p) \<longrightarrow>
      createLaunchCommand (pre @ quoted ''%BASENAME%'' @ post) p
        = createLaunchCommand pre p
            @ quoted (replace_char dq [dq, dq, dq] (completeBaseName p))
            @ createLaunchCommand post p)
   \<and> replace (quoted ''%BASENAME%'') (sanitize ''Super Game!'')
         (replace ''%BASENAME%'' (sanitize ''Super Game!'')
            (quoted ''%BASENAME%'' @ '' --fullscreen''))
       = quoted (quoted ''Super Game!'') @ '' --fullscreen''"
proof (intro conjI impI)
  show "createLaunchCommand t p =
     replace ''%BASENAME%'' (sanitize (completeBaseName p))
       (replace ''%ROM_RAW%'' (sanitize p)
         (replace ''%ROM%'' (sanitize p)
           (replace (quoted ''%BASENAME%'') (sanitize (completeBaseName p))
             (replace (quoted ''%ROM_RAW%'') (sanitize p)
               (replace (quoted ''%ROM%'') (sanitize p) t)))))"
    by (simp add: createLaunchCommand_def Let_def value_of_PATH value_of_BASENAME)
  show "createLaunchCommand (quoted ''%BASENAME%'' @ '' --fullscreen'') ''/roms/Super Game!.rom''
       = quoted ''Super Game!'' @ '' --fullscreen''"
    by (simp add: build_defs)
  show "replace (quoted ''%BASENAME%'') (sanitize ''Super Game!'')
         (replace ''%BASENAME%'' (sanitize ''Super Game!'')
            (quoted ''%BASENAME%'' @ '' --fullscreen''))
       = quoted (quoted ''Super Game!'') @ '' --fullscreen''"
    by (simp add: build_defs)
next
  assume "(pre = [] \<or> last pre \<noteq> CHR ''%'') \<and> (post = [] \<or> hd post \<noteq> CHR ''%'')
        \<and> CHR ''%'' \<notin> set (completeBaseName p)
        \<and> contains_regex WHITESPACE_REGEX (completeBaseName p)"
  then show "createLaunchCommand (pre @ quoted ''%BASENAME%'' @ post) p
        = createLaunchCommand pre p
            @ quoted (replace_char dq [dq, dq, dq] (completeBaseName p))
            @ createLaunchCommand post p"
    by (intro build_around_quoted_BASENAME) simp_all
qed

theorem substitution_order_witness:
  "last ''emu %ROM% '' \<noteq> CHR ''%'' \<and> hd '' --fullscreen'' \<noteq> CHR ''%''
   \<and> completeBaseName ''/roms/Super Game!.rom'' = ''Super Game!''
   \<and> contains_regex WHITESPACE_REGEX ''Super Game!''
   \<and> createLaunchCommand (''emu %ROM% '' @ quoted ''%BASENAME%'' @ '' --fullscreen'')
        ''/roms/Super Game!.rom''
      = ''emu '' @ quoted ''/roms/Super Game!.rom'' @ '' '' @ quoted ''Super Game!''
          @ '' --fullscreen''"
  using substitution_order
      [of "[]" "''/roms/Super Game!.rom''" "''emu %ROM% ''" "'' --fullscreen''",
       THEN conjunct2, THEN conjunct2, THEN conjunct1]
  by (simp add: build_defs)

text \<open>
  C5, as stated: whenever the two sanitized values contain none of the placeholders,
  the command contains none either. It fails for the template \<^verbatim>\<open>%%ROM%%\<close> and the
  path \<^verbatim>\<open>ROM\<close>: the value \<^verbatim>\<open>ROM\<close> contains no placeholder, and the command is
  \<^verbatim>\<open>%ROM%\<close>, made of the inserted value and the text around it.
\<close>

theorem placeholder_left_counterexample:
  "\<not> occurs ''%ROM%'' (sanitize ''ROM'') \<and> \<not> occurs ''%ROM_RAW%'' (sanitize ''ROM'')
   \<and> \<not> occurs ''%BASENAME%'' (sanitize ''ROM'')
   \<and> \<not> occurs ''%ROM%'' (sanitize (completeBaseName ''ROM''))
   \<and> \<not> occurs ''%ROM_RAW%'' (sanitize (completeBaseName ''ROM''))
   \<and> \<not> occurs ''%BASENAME%'' (sanitize (completeBaseName ''ROM''))
   \<and> createLaunchCommand ''%%ROM%%'' ''ROM'' = ''%ROM%''
   \<and> occurs ''%ROM%'' (createLaunchCommand ''%%ROM%%'' ''ROM'')"
  by (simp add: build_defs)

text \<open>
  C5, amended: whenever neither sanitized value contains the character \<^verbatim>\<open>%\<close> and
  neither is a part (a run of consecutive characters, the empty one included) of the
  placeholder names \<^verbatim>\<open>ROM_RAW\<close> and \<^verbatim>\<open>BASENAME\<close>, the command contains no
  occurrence of \<^verbatim>\<open>%ROM%\<close>, \<^verbatim>\<open>%ROM_RAW%\<close> or \<^verbatim>\<open>%BASENAME%\<close>, bare or quoted,
  whatever the template.
\<close>

theorem no_placeholder_left:
  assumes "CHR ''%'' \<notin> set (sanitize p)"
    and "CHR ''%'' \<notin> set (sanitize (completeBaseName p))"
    and "\<not> occurs (sanitize p) ''ROM_RAW''"
    and "\<not> occurs (sanitize p) ''BASENAME''"
    and "\<not> occurs (sanitize (completeBaseName p)) ''ROM_RAW''"
    and "\<not> occurs (sanitize (completeBaseName p)) ''BASENAME''"
  shows "\<not> occurs ''%ROM%'' (createLaunchCommand t p)
       \<and> \<not> occurs ''%ROM_RAW%'' (createLaunchCommand t p)
       \<and> \<not> occurs ''%BASENAME%'' (createLaunchCommand t p)
       \<and> \<not> occurs (quoted ''%ROM%'') (createLaunchCommand t p)
       \<and> \<not> occurs (quoted ''%ROM_RAW%'') (createLaunchCommand t p)
       \<and> \<not> occurs (quoted ''%BASENAME%'') (createLaunchCommand t p)"
  using no_bare_placeholder [OF assms(1,2,3,5,6)] occurs_quoted
  unfolding createLaunchCommand_steps by blast

theorem no_placeholder_left_witness:
  "CHR ''%'' \<notin> set (sanitize ''/roms/a.rom'')
   \<and> CHR ''%'' \<notin> set (sanitize (completeBaseName ''/roms/a.rom''))
   \<and> \<not> occurs (sanitize ''/roms/a.rom'') ''ROM_RAW''
   \<and> \<not> occurs (sanitize ''/roms/a.rom'') ''BASENAME''
   \<and> \<not> occurs (sanitize (completeBaseName ''/roms/a.rom'')) ''ROM_RAW''
   \<and> \<not> occurs (sanitize (completeBaseName ''/roms/a.rom'')) ''BASENAME''
   \<and> \<not> occurs ''%ROM%'' (createLaunchCommand ''emu %%ROM%ROM% %BASENAME%'' ''/roms/a.rom'')
   \<and> \<not> occurs ''%BASENAME%''
        (createLaunchCommand ''emu %%ROM%ROM% %BASENAME%'' ''/roms/a.rom'')"
  using no_placeholder_left [of "''/roms/a.rom''" "''emu %%ROM%ROM% %BASENAME%''"]
  by (simp add: sanitize_def completeBaseName_def fileName_def dq_def WHITESPACE_REGEX_def)

text \<open>
  C6: the value behind \<^verbatim>\<open>%BASENAME%\<close> is the sanitized complete base name of the
  path: the file name without its directory part and without its last extension only.
  \<^verbatim>\<open>/a/b/game.zip\<close> gives \<^verbatim>\<open>game\<close>, \<^verbatim>\<open>game.tar.gz\<close> gives \<^verbatim>\<open>game.tar\<close>,
  \<^verbatim>\<open>game\<close> gives \<^verbatim>\<open>game\<close>, and a bare file name (empty directory part) is
  treated like a path with a directory.
\<close>

theorem basename_strips_last_extension_only:
  "value_of (launch_params path) BASENAME = sanitize (completeBaseName path)
   \<and> createLaunchCommand ''%BASENAME%'' ''/a/b/game.zip'' = ''game''
   \<and> createLaunchCommand ''%BASENAME%'' ''game.tar.gz'' = ''game.tar''
   \<and> createLaunchCommand ''%BASENAME%'' ''game'' = ''game''
   \<and> ((dir = [] \<or> last dir = CHR ''/'') \<and> CHR ''/'' \<notin> set stem \<and> CHR ''/'' \<notin> set ext
        \<and> CHR ''.'' \<notin> set ext \<longrightarrow>
      completeBaseName (dir @ stem @ ''.'' @ ext) = stem)
   \<and> ((dir = [] \<or> last dir = CHR ''/'') \<and> CHR ''/'' \<notin> set name \<and> CHR ''.'' \<notin> set name \<longrightarrow>
      completeBaseName (dir @ name) = name)"
proof (intro conjI impI)
  show "value_of (launch_params path) BASENAME = sanitize (completeBaseName path)"
    by (rule value_of_BASENAME)
  show "createLaunchCommand ''%BASENAME%'' ''/a/b/game.zip'' = ''game''"
    by (simp add: build_defs)
  show "createLaunchCommand ''%BASENAME%'' ''game.tar.gz'' = ''game.tar''"
    by (simp add: build_defs)
  show "createLaunchCommand ''%BASENAME%'' ''game'' = ''game''"
    by (simp add: build_defs)
next
  assume "(dir = [] \<or> last dir = CHR ''/'') \<and> CHR ''/'' \<notin> set stem \<and> CHR ''/'' \<notin> set ext
        \<and> CHR ''.'' \<notin> set ext"
  then show "completeBaseName (dir @ stem @ ''.'' @ ext) = stem"
    by (intro completeBaseName_ext) simp_all
next
  assume "(dir = [] \<or> last dir = CHR ''/'') \<and> CHR ''/'' \<notin> set name \<and> CHR ''.'' \<notin> set name"
  then show "completeBaseName (dir @ name) = name"
    by (intro completeBaseName_no_ext) simp_all
qed

theorem basename_strips_last_extension_only_witness:
  "completeBaseName (''/games/'' @ ''foo.tar'' @ ''.'' @ ''gz'') = ''foo.tar''
   \<and> completeBaseName ([] @ ''foo.tar'' @ ''.'' @ ''gz'') = ''foo.tar''
   \<and> completeBaseName (''/games/'' @ ''foo'') = ''foo''"
  using basename_strips_last_extension_only [of _ "''/games/''" "''foo.tar''" "''gz''" "''foo''"]
    basename_strips_last_extension_only [of _ "[]" "''foo.tar''" "''gz''" "''foo''"]
  by simp

text \<open>
  C7 (the code departs from the claim). The claim: a run whose process spawns and then
  exits is observed as one started line, no failure line, one finished line and then
  \<^verbatim>\<open>processFinished\<close>. \<^verbatim>\<open>runProcess\<close> waits with \<^verbatim>\<open>waitForFinished()\<close>, whose
  limit is Qt's default of 30000 ms. A process that has spawned and is still running when
  the wait is over has emitted \<^verbatim>\<open>started\<close> only; \<^verbatim>\<open>runProcess\<close> returns and
  \<^verbatim>\<open>processFinished\<close> is emitted with no finished line before it, whenever the
  process exits afterwards.
\<close>

theorem run_outlasting_wait_has_no_finished:
  "returned_events (launchGame b
      (\<lambda>command. \<lparr>os_program = prog, os_pid = pid, os_signals = [started]\<rparr>)
      ProcessLauncher t p)
   = Some [Debug (sanitize p), Debug (sanitize (completeBaseName p)), Info_separator,
           Info_executing_command (createLaunchCommand t p),
           Info_process_started pid, processFinished]"
  by (simp add: launchGame_def runProcess_def ProcessLauncher_def handler_defs Let_def
      value_of_PATH value_of_BASENAME returned_events_def Q_ASSERT_fails_def
      split: build.splits)

text \<open>
  C8: a run started without an outstanding process, whose spawn fails, is observed as: no
  started line, one failure line of the kind \<^verbatim>\<open>FailedToStart\<close>, no finished line, and
  then \<^verbatim>\<open>processFinished\<close>, once and last. Whatever the process did,
  \<^verbatim>\<open>processFinished\<close> is emitted as soon as \<^verbatim>\<open>runProcess\<close> has returned. Both
  hold in either build.
\<close>

theorem lifecycle_spawn_failure:
  "(process l = None
      \<and> os_signals (os (createLaunchCommand t p)) = [errorOccurred FailedToStart] \<longrightarrow>
     returned_events (launchGame b os l t p) = Some (observed l @
           [Debug (sanitize p), Debug (sanitize (completeBaseName p)), Info_separator,
            Info_executing_command (createLaunchCommand t p),
            Warning_could_not_run (os_program (os (createLaunchCommand t p))),
            processFinished]))
   \<and> (runProcess b os
         (put (Info_executing_command (createLaunchCommand t p))
           (put Info_separator
             (put (Debug (sanitize (completeBaseName p)))
               (put (Debug (sanitize p)) l))))
         (createLaunchCommand t p) = Inr l2 \<longrightarrow>
       launchGame b os l t p = Inr (put processFinished l2))"
proof (intro conjI impI)
  assume "process l = None
      \<and> os_signals (os (createLaunchCommand t p)) = [errorOccurred FailedToStart]"
  then show "returned_events (launchGame b os l t p) = Some (observed l @
           [Debug (sanitize p), Debug (sanitize (completeBaseName p)), Info_separator,
            Info_executing_command (createLaunchCommand t p),
            Warning_could_not_run (os_program (os (createLaunchCommand t p))),
            processFinished])"
    by (simp add: launchGame_def runProcess_def handler_defs Let_def value_of_PATH
        value_of_BASENAME returned_events_def Q_ASSERT_fails_def split: build.splits)
next
  assume "runProcess b os
         (put (Info_executing_command (createLaunchCommand t p))
           (put Info_separator
             (put (Debug (sanitize (completeBaseName p)))
               (put (Debug (sanitize p)) l))))
         (createLaunchCommand t p) = Inr l2"
  then show "launchGame b os l t p = Inr (put processFinished l2)"
    by (simp add: launchGame_def Let_def value_of_PATH value_of_BASENAME)
qed

theorem lifecycle_spawn_failure_witness:
  "returned_events (launchGame With_assertions
      (\<lambda>command. \<lparr>os_program = ''nonexistent'', os_pid = 0,
                   os_signals = [errorOccurred FailedToStart]\<rparr>)
      ProcessLauncher ''nonexistent %ROM%'' ''/roms/a.rom'')
   = Some [Debug ''/roms/a.rom'', Debug ''a'', Info_separator,
           Info_executing_command ''nonexistent /roms/a.rom'',
           Warning_could_not_run ''nonexistent'', processFinished]
   \<and> returned_events (launchGame Without_assertions
      (\<lambda>command. \<lparr>os_program = ''nonexistent'', os_pid = 0,
                   os_signals = [errorOccurred FailedToStart]\<rparr>)
      ProcessLauncher ''nonexistent %ROM%'' ''/roms/a.rom'')
   = Some [Debug ''/roms/a.rom'', Debug ''a'', Info_separator,
           Info_executing_command ''nonexistent /roms/a.rom'',
           Warning_could_not_run ''nonexistent'', processFinished]"
  using lifecycle_spawn_failure [of ProcessLauncher
      "\<lambda>command. \<lparr>os_program = ''nonexistent'', os_pid = 0,
                   os_signals = [errorOccurred FailedToStart]\<rparr>"
      "''nonexistent %ROM%''" "''/roms/a.rom''" With_assertions]
    lifecycle_spawn_failure [of ProcessLauncher
      "\<lambda>command. \<lparr>os_program = ''nonexistent'', os_pid = 0,
                   os_signals = [errorOccurred FailedToStart]\<rparr>"
      "''nonexistent %ROM%''" "''/roms/a.rom''" Without_assertions]
  by (simp add: ProcessLauncher_def build_defs)

text \<open>
  C9, as stated: \<^verbatim>\<open>runProcess\<close> called while a process pointer is still set, or a
  failure signal of the kind \<^verbatim>\<open>ReadError\<close> or \<^verbatim>\<open>WriteError\<close>, ends the program at
  once. In a build without assertions it does not: \<^verbatim>\<open>Q_ASSERT(!process)\<close> is no
  code, so the second run takes place and returns, and reaching \<^verbatim>\<open>Q_UNREACHABLE()\<close>
  is undefined behaviour, not an abort.
\<close>

theorem second_run_without_assertions_proceeds:
  "process (ProcessLauncher\<lparr>process := Some \<lparr>program = ''emu'', processId = 7\<rparr>\<rparr>) \<noteq> None
   \<and> aborted_at (runProcess Without_assertions
        (\<lambda>command. \<lparr>os_program = ''emu'', os_pid = 8,
                     os_signals = [started, finished 0 NormalExit]\<rparr>)
        (ProcessLauncher\<lparr>process := Some \<lparr>program = ''emu'', processId = 7\<rparr>\<rparr>) ''emu'')
       = None
   \<and> returned_events (runProcess Without_assertions
        (\<lambda>command. \<lparr>os_program = ''emu'', os_pid = 8,
                     os_signals = [started, finished 0 NormalExit]\<rparr>)
        (ProcessLauncher\<lparr>process := Some \<lparr>program = ''emu'', processId = 7\<rparr>\<rparr>) ''emu'')
       = Some [Info_process_started 8, Info_finished_cleanly 0]
   \<and> aborted_at (onProcessFailed Without_assertions
        (ProcessLauncher\<lparr>process := Some \<lparr>program = ''emu'', processId = 7\<rparr>\<rparr>) ReadError)
       = Some Unreachable_io_error
   \<and> fate_at Without_assertions Unreachable_io_error \<noteq> Program_aborted"
  by (simp add: runProcess_def ProcessLauncher_def handler_defs Let_def aborted_at_def
      returned_events_def Q_ASSERT_fails_def)

text \<open>
  C9, amended: in a build with assertions (\<^verbatim>\<open>QT_NO_DEBUG\<close> not defined),
  \<^verbatim>\<open>runProcess\<close> called while the process pointer is still set ends the program at
  once at \<^verbatim>\<open>Q_ASSERT(!process)\<close>, and a failure signal of the kind \<^verbatim>\<open>ReadError\<close>
  or \<^verbatim>\<open>WriteError\<close> ends it at once at \<^verbatim>\<open>Q_UNREACHABLE()\<close>, nothing being written
  before. In either build, a run started with no process outstanding, during which no
  such signal arrives, reaches neither of these two places.
\<close>

theorem programming_errors_abort:
  "(process l \<noteq> None \<longrightarrow>
        runProcess With_assertions os l command = Inl (Assert_no_process, l) \<and>
        fate_at With_assertions Assert_no_process = Program_aborted)
   \<and> (process l \<noteq> None \<longrightarrow>
        onProcessFailed With_assertions l ReadError = Inl (Unreachable_io_error, l) \<and>
        onProcessFailed With_assertions l WriteError = Inl (Unreachable_io_error, l) \<and>
        fate_at With_assertions Unreachable_io_error = Program_aborted)
   \<and> (process l = None \<and> errorOccurred ReadError \<notin> set (os_signals (os command))
        \<and> errorOccurred WriteError \<notin> set (os_signals (os command)) \<longrightarrow>
        aborted_at (runProcess b os l command) \<noteq> Some Assert_no_process \<and>
        aborted_at (runProcess b os l command) \<noteq> Some Unreachable_io_error)"
proof (intro conjI impI)
  assume "process l \<noteq> None"
  then show "runProcess With_assertions os l command = Inl (Assert_no_process, l)"
    by (auto simp: runProcess_def Q_ASSERT_fails_def)
next
  show "fate_at With_assertions Assert_no_process = Program_aborted" by simp
next
  assume "process l \<noteq> None"
  then show "onProcessFailed With_assertions l ReadError = Inl (Unreachable_io_error, l)"
    by (auto simp: onProcessFailed_def Q_ASSERT_fails_def)
next
  assume "process l \<noteq> None"
  then show "onProcessFailed With_assertions l WriteError = Inl (Unreachable_io_error, l)"
    by (auto simp: onProcessFailed_def Q_ASSERT_fails_def)
next
  show "fate_at With_assertions Unreachable_io_error = Program_aborted" by simp
next
  assume a: "process l = None \<and> errorOccurred ReadError \<notin> set (os_signals (os command))
        \<and> errorOccurred WriteError \<notin> set (os_signals (os command))"
  define l1 where
    "l1 = l\<lparr>process := Some \<lparr>program = os_program (os command), processId = os_pid (os command)\<rparr>\<rparr>"
  have run: "runProcess b os l command =
      (case deliver b l1 (os_signals (os command)) of
         Inl a \<Rightarrow> Inl a
       | Inr l \<Rightarrow> Inr (l\<lparr>delete_later := True\<rparr>))"
    using a by (simp add: runProcess_def l1_def Let_def Q_ASSERT_fails_def split: build.splits)
  have p1: "process l1 \<noteq> None" by (simp add: l1_def)
  have only: "x = Unreachable_exit_status"
    if "aborted_at (runProcess b os l command) = Some x" for x
  proof -
    from that obtain l' where "deliver b l1 (os_signals (os command)) = Inl (x, l')"
      unfolding run by (auto simp: aborted_at_def split: sum.splits)
    from deliver_abort [OF this p1] a show ?thesis by auto
  qed
  from only show "aborted_at (runProcess b os l command) \<noteq> Some Assert_no_process"
    by fastforce
  from only show "aborted_at (runProcess b os l command) \<noteq> Some Unreachable_io_error"
    by fastforce
qed

theorem programming_errors_abort_witness:
  "aborted_at (runProcess With_assertions
      (\<lambda>command. \<lparr>os_program = ''emu'', os_pid = 7, os_signals = []\<rparr>)
      (ProcessLauncher\<lparr>process := Some \<lparr>program = ''emu'', processId = 7\<rparr>\<rparr>) ''emu'')
     = Some Assert_no_process
   \<and> aborted_at (onProcessFailed With_assertions
        (ProcessLauncher\<lparr>process := Some \<lparr>program = ''emu'', processId = 7\<rparr>\<rparr>) ReadError)
     = Some Unreachable_io_error
   \<and> aborted_at (runProcess With_assertions
        (\<lambda>command. \<lparr>os_program = ''emu'', os_pid = 7,
                     os_signals = [started, errorOccurred Timedout, finished 1 NormalExit]\<rparr>)
        ProcessLauncher ''emu'') \<noteq> Some Unreachable_io_error
   \<and> aborted_at (runProcess Without_assertions
        (\<lambda>command. \<lparr>os_program = ''emu'', os_pid = 7,
                     os_signals = [started, errorOccurred Timedout, finished 1 NormalExit]\<rparr>)
        ProcessLauncher ''emu'') \<noteq> Some Unreachable_io_error"
  using programming_errors_abort
      [of "ProcessLauncher\<lparr>process := Some \<lparr>program = ''emu'', processId = 7\<rparr>\<rparr>"
          "\<lambda>command. \<lparr>os_program = ''emu'', os_pid = 7, os_signals = []\<rparr>" "''emu''"]
    programming_errors_abort
      [of ProcessLauncher
          "\<lambda>command. \<lparr>os_program = ''emu'', os_pid = 7,
                       os_signals = [started, errorOccurred Timedout, finished 1 NormalExit]\<rparr>"
          "''emu''" With_assertions]
    programming_errors_abort
      [of ProcessLauncher
          "\<lambda>command. \<lparr>os_program = ''emu'', os_pid = 7,
                       os_signals = [started, errorOccurred Timedout, finished 1 NormalExit]\<rparr>"
          "''emu''" Without_assertions]
  by (simp add: ProcessLauncher_def aborted_at_def)

text \<open>
  C10, as stated: in every template with several occurrences of the same placeholder
  form, every occurrence is replaced, by the same sanitized value. It fails for the
  template \<^verbatim>\<open>%BASENAME%ROM%BASENAME%\<close>, which has two occurrences of the bare
  \<^verbatim>\<open>%BASENAME%\<close>: the earlier step for \<^verbatim>\<open>%ROM%\<close> takes the delimiters of both, and
  neither is replaced by the base name.
\<close>

theorem same_placeholder_counterexample:
  "interleave ''%BASENAME%'' [[], ''ROM'', []] = ''%BASENAME%ROM%BASENAME%''
   \<and> createLaunchCommand ''%BASENAME%ROM%BASENAME%'' ''/x/y.z'' = ''%BASENAME/x/y.zBASENAME%''
   \<and> createLaunchCommand ''%BASENAME%ROM%BASENAME%'' ''/x/y.z''
       \<noteq> interleave (sanitize (completeBaseName ''/x/y.z'')) [[], ''ROM'', []]"
  by (simp add: build_defs)

text \<open>
  C10, amended: in every template made of occurrences of one placeholder form, quoted or
  bare, between texts that contain neither \<^verbatim>\<open>%\<close> nor a double quote and are not the
  names \<^verbatim>\<open>ROM\<close> or \<^verbatim>\<open>ROM_RAW\<close>, and for every path without \<^verbatim>\<open>%\<close>, every
  occurrence is replaced, not only the first, and all of them by the same sanitized
  value: the path for \<^verbatim>\<open>%ROM%\<close> and \<^verbatim>\<open>%ROM_RAW%\<close>, the base name for
  \<^verbatim>\<open>%BASENAME%\<close>.
\<close>

theorem same_placeholder_all_replaced:
  assumes "\<forall>g\<in>set gs. CHR ''%'' \<notin> set g \<and> dq \<notin> set g \<and> g \<noteq> ''ROM'' \<and> g \<noteq> ''ROM_RAW''"
    and "CHR ''%'' \<notin> set p"
  shows "createLaunchCommand (interleave (quoted ''%ROM%'') gs) p = interleave (sanitize p) gs
       \<and> createLaunchCommand (interleave (quoted ''%ROM_RAW%'') gs) p
           = interleave (sanitize p) gs
       \<and> createLaunchCommand (interleave (quoted ''%BASENAME%'') gs) p
           = interleave (sanitize (completeBaseName p)) gs
       \<and> createLaunchCommand (interleave ''%ROM%'' gs) p = interleave (sanitize p) gs
       \<and> createLaunchCommand (interleave ''%ROM_RAW%'' gs) p = interleave (sanitize p) gs
       \<and> createLaunchCommand (interleave ''%BASENAME%'' gs) p
           = interleave (sanitize (completeBaseName p)) gs"
proof -
  have vp: "CHR ''%'' \<notin> set (sanitize p)"
    using assms(2) by (intro set_sanitize) (simp_all add: dq_def)
  have vb: "CHR ''%'' \<notin> set (sanitize (completeBaseName p))"
    using assms(2) by (intro set_sanitize set_completeBaseName) (simp_all add: dq_def)
  have g3: "\<forall>g\<in>set gs. CHR ''%'' \<notin> set g \<and> dq \<notin> set g"
    and g4: "\<forall>g\<in>set gs. CHR ''%'' \<notin> set g \<and> dq \<notin> set g \<and> g \<noteq> ''ROM''"
    using assms(1) by auto
  show ?thesis
    using build_quoted_ROM [OF g3 vp] build_quoted_ROM_RAW [OF g3 vp]
      build_quoted_BASENAME [OF g3 vb] build_bare_ROM [OF g3 vp]
      build_bare_ROM_RAW [OF g4 vp] build_bare_BASENAME [OF assms(1)]
    by (intro conjI)
qed

theorem same_placeholder_all_replaced_witness:
  "createLaunchCommand ''emu %ROM% --also %ROM% --again %ROM%'' ''/roms/Super Game!.rom''
     = ''emu '' @ quoted ''/roms/Super Game!.rom'' @ '' --also ''
       @ quoted ''/roms/Super Game!.rom'' @ '' --again '' @ quoted ''/roms/Super Game!.rom''
   \<and> createLaunchCommand
        (''emu '' @ quoted ''%BASENAME%'' @ '' --title '' @ quoted ''%BASENAME%'')
        ''/roms/Super Game!.rom''
     = ''emu '' @ quoted ''Super Game!'' @ '' --title '' @ quoted ''Super Game!''"
  using same_placeholder_all_replaced
      [of "[''emu '', '' --also '', '' --again '', []]" "''/roms/Super Game!.rom''"]
    same_placeholder_all_replaced [of "[''emu '', '' --title '', []]" "''/roms/Super Game!.rom''"]
  by (simp add: sanitize_def completeBaseName_def fileName_def dq_def WHITESPACE_REGEX_def
      quoted_def)

end
